theory Spec2Isabelle
  imports Complex_Main "HOL-Library.AList"
begin

section \<open>Python values and failures\<close>

text \<open>
  The exceptions the modelled code can raise. A computation that may also fail to return
  (the \<open>while\<close> loop of \<open>find\<close>) has a result of type \<open>(error + 'a) option\<close>:
  \<open>None\<close> is a run that never returns, \<open>Some (Inl e)\<close> a raised exception and
  \<open>Some (Inr v)\<close> a returned value.
\<close>

datatype error =
  IndexError | KeyError | ValueError | AxisError | UnboundLocalError | ZeroDivisionError

type_synonym 'a res = "(error + 'a) option"

definition py_index :: "'a list \<Rightarrow> int \<Rightarrow> error + 'a" where
  \<comment> \<open>\<open>xs[i]\<close>: a negative index counts from the end, an index out of range raises.\<close>
  "py_index xs i =
     (if 0 \<le> i \<and> i < int (length xs) then Inr (xs ! nat i)
      else if - int (length xs) \<le> i \<and> i < 0 then Inr (xs ! nat (i + int (length xs)))
      else Inl IndexError)"

definition py_store :: "'a list \<Rightarrow> int \<Rightarrow> 'a \<Rightarrow> error + 'a list" where
  \<comment> \<open>\<open>xs[i] = v\<close>, returning the updated array.\<close>
  "py_store xs i v =
     (if 0 \<le> i \<and> i < int (length xs) then Inr (xs[nat i := v])
      else if - int (length xs) \<le> i \<and> i < 0 then Inr (xs[nat (i + int (length xs)) := v])
      else Inl IndexError)"

section \<open>Union-find substrate: \<open>find\<close>\<close>

text \<open>
  \<^verbatim>\<open>
  def find(x, labels):
      x = int(x)
      while labels[x] != x:
          x = labels[x]
      return x
  \<close>
  The loop may run forever on a cyclic array, so the function is partial. It reads
  \<open>labels\<close> and has no assignment to it: the array is an argument only.
\<close>

partial_function (option) find :: "int \<Rightarrow> int list \<Rightarrow> int res" where
  "find x labels =
     (case py_index labels x of
        Inl e \<Rightarrow> Some (Inl e)
      | Inr y \<Rightarrow> if y \<noteq> x then find y labels else Some (Inr x))"

declare find.simps [code]

text \<open>The chain \<open>x, labels[x], labels[labels[x]], ...\<close> after \<open>k\<close> steps.\<close>

fun follow :: "nat \<Rightarrow> int \<Rightarrow> int list \<Rightarrow> error + int" where
  "follow 0 x labels = Inr x"
| "follow (Suc k) x labels =
     (case py_index labels x of Inl e \<Rightarrow> Inl e | Inr y \<Rightarrow> follow k y labels)"


section \<open>Sequencing\<close>

definition rbind :: "'a res \<Rightarrow> ('a \<Rightarrow> 'b res) \<Rightarrow> 'b res" where
  \<comment> \<open>Run \<open>m\<close>; a run that does not return or raises ends the whole computation.\<close>
  "rbind m f = (case m of None \<Rightarrow> None | Some (Inl e) \<Rightarrow> Some (Inl e) | Some (Inr v) \<Rightarrow> f v)"

definition lift :: "error + 'a \<Rightarrow> 'a res" where
  "lift r = Some r"

text \<open>A \<open>for x in xs\<close> loop without \<open>break\<close> over a state \<open>s\<close>.\<close>

fun for_loop :: "'a list \<Rightarrow> ('a \<Rightarrow> 's \<Rightarrow> 's res) \<Rightarrow> 's \<Rightarrow> 's res" where
  "for_loop [] body s = Some (Inr s)"
| "for_loop (x # xs) body s = rbind (body x s) (for_loop xs body)"

section \<open>Arrays\<close>

text \<open>
  A numpy array is its shape and its elements in C order (last axis fastest). An element
  is a number or a numpy bool; \<open>truthy\<close> is what \<open>if\<close> tests.
\<close>

record 'a ndarray =
  shape :: "nat list"
  data :: "'a list"

datatype 'a npval = Num 'a | Bool bool

fun truthy :: "'a::zero npval \<Rightarrow> bool" where
  "truthy (Num v) = (v \<noteq> 0)"
| "truthy (Bool b) = b"

fun ravel :: "nat list \<Rightarrow> nat list \<Rightarrow> nat" where
  \<comment> \<open>The flat position of a coordinate tuple in an array of the given shape.\<close>
  "ravel (s # sh) (c # cs) = c * prod_list sh + ravel sh cs"
| "ravel sh cs = 0"

definition nd_index :: "'a ndarray \<Rightarrow> nat list \<Rightarrow> error + 'a" where
  \<comment> \<open>\<open>a[coords]\<close> for a tuple with one in-range entry per axis; anything else raises.\<close>
  "nd_index a coords =
     (if list_all2 (<) coords (shape a) \<and> ravel (shape a) coords < length (data a)
      then Inr (data a ! ravel (shape a) coords) else Inl IndexError)"

definition ranges :: "nat list \<Rightarrow> nat list list" where
  \<comment> \<open>\<open>[range(size) for size in sizes]\<close>\<close>
  "ranges sizes = map (\<lambda>size. [0..<size]) sizes"

definition np_dot :: "nat list \<Rightarrow> nat list \<Rightarrow> error + nat" where
  \<comment> \<open>\<open>np.dot\<close> of two one-dimensional integer sequences.\<close>
  "np_dot xs ys =
     (if length xs = length ys then Inr (sum_list (map2 (*) xs ys)) else Inl ValueError)"

section \<open>The Hoshen-Kopelman labeler\<close>

text \<open>
  The state of one call is the \<open>labels\<close> array, the field \<open>hk_labels\<close>. The field
  \<open>hk_trace\<close> is a ghost: every
  assignment to \<open>labels\<close> appends the array as it was just before, the index written and
  the value written. It is not read by the program.
\<close>

datatype write_kind = Primary | Cross | Wrap | Resolve

record write_event =
  ev_kind :: write_kind
  ev_before :: "int list"
  ev_index :: int
  ev_value :: int

record hk_state =
  hk_labels :: "int list"
  hk_trace :: "write_event list"

definition assign :: "write_kind \<Rightarrow> int \<Rightarrow> int \<Rightarrow> hk_state \<Rightarrow> hk_state res" where
  \<comment> \<open>\<open>labels[i] = v\<close>\<close>
  "assign k i v st =
     (case py_store (hk_labels st) i v of
        Inl e \<Rightarrow> Some (Inl e)
      | Inr ls \<Rightarrow> Some (Inr \<lparr>hk_labels = ls,
          hk_trace = hk_trace st @ [\<lparr>ev_kind = k, ev_before = hk_labels st, ev_index = i, ev_value = v\<rparr>]\<rparr>))"

definition convert_vec :: "nat list \<Rightarrow> nat \<Rightarrow> nat list" where
  \<comment> \<open>\<open>[np.prod(sizes[k+1:]).astype(int) for k in range(d)]\<close>\<close>
  "convert_vec sizes d = map (\<lambda>k. prod_list (drop (k + 1) sizes)) [0..<d]"

text \<open>
  The body of \<open>for m in range(n+1,d)\<close> (source lines 70 to 73). In
  \<open>labels[find(idx_neighbor, labels)] = find(idx_site, labels)\<close> Python evaluates the
  right-hand side first.
\<close>

definition cross_term ::
  "'a::zero npval ndarray list \<Rightarrow> nat list \<Rightarrow> nat list \<Rightarrow> int \<Rightarrow> nat \<Rightarrow> hk_state \<Rightarrow> hk_state res" where
  "cross_term bonds cv coords idx_site m st =
     rbind (lift (py_index coords (int m))) (\<lambda>cm.
       if cm \<noteq> 0 then
         rbind (lift (py_index bonds (int m))) (\<lambda>bm.
         rbind (lift (nd_index bm coords)) (\<lambda>b.
           if truthy b then
             rbind (lift (py_index cv (int m))) (\<lambda>s.
               let idx_neighbor = idx_site - int s in
               rbind (find idx_site (hk_labels st)) (\<lambda>r_site.
               rbind (find idx_neighbor (hk_labels st)) (\<lambda>r_neighbor.
                 assign Cross r_neighbor r_site st)))
           else Some (Inr st)))
       else Some (Inr st))"

text \<open>
  The loop \<open>for n in range(d)\<close> of one site visit (source lines 62 to 75), over the axes
  still to scan. The \<open>break\<close> sits inside \<open>if bonds[n][coords]\<close>: the scan goes on to the
  next axis unless the coordinate is nonzero and the bond is active.
\<close>

fun axis_scan ::
  "'a::zero npval ndarray list \<Rightarrow> nat list \<Rightarrow> nat \<Rightarrow> nat list \<Rightarrow> nat list \<Rightarrow> hk_state \<Rightarrow> hk_state res" where
  "axis_scan bonds cv d coords [] st = Some (Inr st)"
| "axis_scan bonds cv d coords (n # ns) st =
     rbind (lift (py_index coords (int n))) (\<lambda>cn.
       if cn \<noteq> 0 then
         rbind (lift (py_index bonds (int n))) (\<lambda>bn.
         rbind (lift (nd_index bn coords)) (\<lambda>b.
           if truthy b then
             rbind (lift (np_dot coords cv)) (\<lambda>idx_site.
             rbind (lift (py_index cv (int n))) (\<lambda>s.
               let idx_neighbor = int idx_site - int s in
               rbind (find idx_neighbor (hk_labels st)) (\<lambda>r.
               rbind (assign Primary (int idx_site) r st) (\<lambda>st'.
                 for_loop [n + 1..<d] (cross_term bonds cv coords (int idx_site)) st'))))
           else axis_scan bonds cv d coords ns st))
       else axis_scan bonds cv d coords ns st)"

definition visit_site ::
  "'a::zero npval ndarray list \<Rightarrow> nat list \<Rightarrow> nat \<Rightarrow> nat list \<Rightarrow> hk_state \<Rightarrow> hk_state res" where
  "visit_site bonds cv d coords st = axis_scan bonds cv d coords [0..<d] st"

definition main_sweep ::
  "'a::zero npval ndarray list \<Rightarrow> nat list \<Rightarrow> nat list \<Rightarrow> nat \<Rightarrow> hk_state \<Rightarrow> hk_state res" where
  "main_sweep bonds sizes cv d st =
     for_loop (product_lists (ranges sizes)) (visit_site bonds cv d) st"

text \<open>
  The periodic pass (source lines 78 to 87). In
  \<open>labels[find(idx_neighbor, labels)] = labels[find(idx_site, labels)]\<close> the right-hand
  side is evaluated first.
\<close>

definition wrap_site ::
  "'a::zero npval ndarray list \<Rightarrow> nat list \<Rightarrow> nat list \<Rightarrow> nat \<Rightarrow> nat list \<Rightarrow> hk_state \<Rightarrow> hk_state res" where
  "wrap_site bonds sizes cv n coords st =
     rbind (lift (py_index bonds (int n))) (\<lambda>bn.
     rbind (lift (nd_index bn coords)) (\<lambda>b.
       if truthy b then
         rbind (lift (np_dot coords cv)) (\<lambda>idx_site.
         rbind (lift (py_index cv (int n))) (\<lambda>s.
         rbind (lift (py_index sizes (int n))) (\<lambda>size_n.
           let idx_neighbor = int idx_site + int s * (int size_n - 1) in
           rbind (find (int idx_site) (hk_labels st)) (\<lambda>r_site.
           rbind (lift (py_index (hk_labels st) r_site)) (\<lambda>v.
           rbind (find idx_neighbor (hk_labels st)) (\<lambda>r_neighbor.
             assign Wrap r_neighbor v st))))))
       else Some (Inr st)))"

definition wrap_axis ::
  "'a::zero npval ndarray list \<Rightarrow> nat list \<Rightarrow> nat list \<Rightarrow> string \<Rightarrow> nat \<Rightarrow> hk_state \<Rightarrow> hk_state res" where
  "wrap_axis bonds sizes cv bc n st =
     rbind (lift (py_index bc (int n))) (\<lambda>ch.
       if ch = CHR ''p'' then
         for_loop (product_lists (ranges (take n sizes) @ [[0]] @ ranges (drop (n + 1) sizes)))
           (wrap_site bonds sizes cv n) st
       else Some (Inr st))"

definition resolve_site :: "nat \<Rightarrow> hk_state \<Rightarrow> hk_state res" where
  \<comment> \<open>\<open>labels[idx] = int(find(idx, labels))\<close>\<close>
  "resolve_site idx st =
     rbind (find (int idx) (hk_labels st)) (\<lambda>r. assign Resolve (int idx) r st)"

definition unique_inverse :: "int list \<Rightarrow> int list" where
  \<comment> \<open>\<open>np.unique(labels, return_inverse=True)[1]\<close>: each entry's position among the sorted
      distinct values, which is the number of distinct values below it.\<close>
  "unique_inverse ls = map (\<lambda>l. int (length (filter (\<lambda>u. u < l) (remdups ls)))) ls"

definition hk_run ::
  "'a::zero npval ndarray list \<Rightarrow> nat list \<Rightarrow> nat \<Rightarrow> string \<Rightarrow> hk_state res" where
  \<comment> \<open>The three passes of \<open>hoshen_kopelman_nd\<close>, up to the \<open>reduce\<close> step.\<close>
  "hk_run bonds sizes d bc =
     (let st0 = \<lparr>hk_labels = map int [0..<prod_list sizes], hk_trace = []\<rparr>;
          cv = convert_vec sizes d
      in rbind (main_sweep bonds sizes cv d st0) (\<lambda>st1.
         rbind (for_loop [0..<d] (wrap_axis bonds sizes cv bc) st1) (\<lambda>st2.
           for_loop [0..<length (hk_labels st2)] resolve_site st2)))"

definition hoshen_kopelman_nd ::
  "'a::zero npval ndarray list \<Rightarrow> nat list \<Rightarrow> nat \<Rightarrow> string \<Rightarrow> bool \<Rightarrow> int list res" where
  "hoshen_kopelman_nd bonds sizes d bc reduce =
     rbind (hk_run bonds sizes d bc) (\<lambda>st.
       Some (Inr (if reduce then unique_inverse (hk_labels st) else hk_labels st)))"

section \<open>The bond extractor\<close>

definition ebind :: "error + 'a \<Rightarrow> ('a \<Rightarrow> error + 'b) \<Rightarrow> error + 'b" where
  \<comment> \<open>Sequencing for code without loops that may run forever.\<close>
  "ebind m f = (case m of Inl e \<Rightarrow> Inl e | Inr v \<Rightarrow> f v)"

fun efor :: "'a list \<Rightarrow> ('a \<Rightarrow> 's \<Rightarrow> error + 's) \<Rightarrow> 's \<Rightarrow> error + 's" where
  "efor [] body s = Inr s"
| "efor (x # xs) body s = ebind (body x s) (efor xs body)"

fun collect :: "(error + 'a) list \<Rightarrow> error + 'a list" where
  \<comment> \<open>A list comprehension whose elements may raise: the first exception wins.\<close>
  "collect [] = Inr []"
| "collect (r # rs) = ebind r (\<lambda>v. ebind (collect rs) (\<lambda>vs. Inr (v # vs)))"

definition np_roll1 :: "'a ndarray \<Rightarrow> nat \<Rightarrow> error + 'a ndarray" where
  \<comment> \<open>\<open>np.roll(a, 1, axis=n)\<close>: the entry at a coordinate is the entry of \<open>a\<close> one step
      back along axis \<open>n\<close>, cyclically.\<close>
  "np_roll1 a n =
     (if n < length (shape a) then
        Inr \<lparr>shape = shape a,
             data = map (\<lambda>cs. data a ! ravel (shape a)
                               (cs[n := (cs ! n + shape a ! n - 1) mod (shape a ! n)]))
                      (product_lists (ranges (shape a)))\<rparr>
      else Inl AxisError)"

definition get_bonds_nd :: "'a::times ndarray \<Rightarrow> nat \<Rightarrow> string \<Rightarrow> error + 'a npval ndarray list" where
  "get_bonds_nd state d bond_type =
     ebind (collect (map (np_roll1 state) [0..<d])) (\<lambda>rolls.
       if bond_type = ''all'' then
         Inr (map (\<lambda>roll. \<lparr>shape = shape state,
                            data = map2 (\<lambda>r s. Bool (r = s)) (data roll) (data state)\<rparr>) rolls)
       else if bond_type = ''one'' then
         Inr (map (\<lambda>roll. \<lparr>shape = shape state,
                            data = map2 (\<lambda>r s. Num (r * s)) (data roll) (data state)\<rparr>) rolls)
       else Inl UnboundLocalError)"

section \<open>Gap statistics\<close>

text \<open>
  Floating-point numbers are modelled by exact rationals: rounding is not part of the
  model. The dictionaries \<open>first_seen\<close> and \<open>last_seen\<close> are association lists in
  insertion order, the order of \<open>for lab in last_seen\<close>. The default \<open>bad = np.nan\<close>
  differs from every label and is \<open>None\<close>.
\<close>

type_synonym seen = "(int \<times> nat) list"

definition increment :: "rat list \<Rightarrow> int \<Rightarrow> error + rat list" where
  \<comment> \<open>\<open>f[gap] += 1\<close>\<close>
  "increment f gap = ebind (py_index f gap) (\<lambda>v. py_store f gap (v + 1))"

fun scan_entry ::
  "int option \<Rightarrow> nat \<times> int \<Rightarrow> rat list \<times> seen \<times> seen \<Rightarrow> error + rat list \<times> seen \<times> seen" where
  \<comment> \<open>The body of \<open>for i, lab in enumerate(line_labels)\<close>.\<close>
  "scan_entry bad (i, lab) (f, first_seen, last_seen) =
     (if Some lab \<noteq> bad then
        (case map_of last_seen lab of
           Some j \<Rightarrow>
             ebind (increment f (int i - int j)) (\<lambda>f'.
               Inr (f', first_seen, AList.update lab i last_seen))
         | None \<Rightarrow> Inr (f, AList.update lab i first_seen, AList.update lab i last_seen))
      else Inr (f, first_seen, last_seen))"

definition wrap_entry :: "nat \<Rightarrow> seen \<Rightarrow> seen \<Rightarrow> int \<Rightarrow> rat list \<Rightarrow> error + rat list" where
  \<comment> \<open>The body of \<open>for lab in last_seen\<close>.\<close>
  "wrap_entry size' first_seen last_seen lab f =
     (case map_of first_seen lab of
        None \<Rightarrow> Inl KeyError
      | Some a \<Rightarrow>
          (case map_of last_seen lab of
             None \<Rightarrow> Inl KeyError
           | Some b \<Rightarrow>
               let gap = int size' + int a - int b in
               if size' = 0 then Inl ZeroDivisionError else increment f (gap mod int size')))"

definition scan_row ::
  "int list \<Rightarrow> nat \<Rightarrow> string \<Rightarrow> int option \<Rightarrow> nat \<Rightarrow> rat list \<Rightarrow> error + rat list" where
  \<comment> \<open>The body of \<open>for row in range(size)\<close>; the slice is
      \<open>labels[row*size : (row+1)*size]\<close>.\<close>
  "scan_row labels size' bc bad row f =
     (let line_labels = take size' (drop (row * size') labels) in
      ebind (efor (enumerate 0 line_labels) (scan_entry bad) (f, [], []))
        (\<lambda>(f', first_seen, last_seen).
           if bc = ''p'' then efor (map fst last_seen) (wrap_entry size' first_seen last_seen) f'
           else Inr f'))"

definition transpose_flat :: "int list \<Rightarrow> nat \<Rightarrow> error + int list" where
  \<comment> \<open>\<open>np.transpose(labels.reshape([size,size])).ravel()\<close>\<close>
  "transpose_flat labels size' =
     (if length labels = size' * size' then
        Inr (map (\<lambda>k. labels ! ((k mod size') * size' + k div size')) [0..<size' * size'])
      else Inl ValueError)"

text \<open>
  The \<open>while not completed\<close> loop: one pass over the rows, and a second one over the
  transposed array when \<open>both_directions\<close> is set. It returns the histogram and \<open>norm\<close>.
\<close>

function gapstat_loop ::
  "int list \<Rightarrow> nat \<Rightarrow> string \<Rightarrow> bool \<Rightarrow> int option \<Rightarrow> rat list \<Rightarrow> nat \<Rightarrow> error + rat list \<times> nat" where
  "gapstat_loop labels size' bc both_directions bad f norm' =
     (case efor [0..<size'] (scan_row labels size' bc bad) f of
        Inl e \<Rightarrow> Inl e
      | Inr f' \<Rightarrow>
          if both_directions then
            (case transpose_flat labels size' of
               Inl e \<Rightarrow> Inl e
             | Inr labels' \<Rightarrow> gapstat_loop labels' size' bc False bad f' (norm' * 2))
          else Inr (f', norm'))"
  by pat_completeness auto
termination
  by (relation "measure (\<lambda>(labels, size', bc, both_directions, bad, f, norm'). if both_directions then 1 else 0)")
    auto

definition get_gapstat_2d ::
  "int list \<Rightarrow> nat \<Rightarrow> string \<Rightarrow> bool \<Rightarrow> int option \<Rightarrow> error + rat list" where
  "get_gapstat_2d labels size' bc both_directions bad =
     ebind (gapstat_loop labels size' bc both_directions bad (replicate size' 0) size')
       (\<lambda>(f, norm'). Inr (map (\<lambda>x. x / of_nat norm') f))"

section \<open>Tomography analysis\<close>

definition broadcast2 :: "'a list \<Rightarrow> 'b list \<Rightarrow> error + ('a \<times> 'b) list" where
  \<comment> \<open>numpy broadcasting of two one-dimensional arrays.\<close>
  "broadcast2 xs ys =
     (if length xs = length ys then Inr (zip xs ys)
      else if length xs = 1 then Inr (map (\<lambda>y. (hd xs, y)) ys)
      else if length ys = 1 then Inr (map (\<lambda>x. (x, hd ys)) xs)
      else Inl ValueError)"

definition np_add :: "rat list \<Rightarrow> rat list \<Rightarrow> error + rat list" where
  "np_add xs ys = ebind (broadcast2 xs ys) (\<lambda>ps. Inr (map (\<lambda>(x, y). x + y) ps))"

definition np_dot_rat :: "rat list \<Rightarrow> rat list \<Rightarrow> error + rat" where
  "np_dot_rat xs ys =
     (if length xs = length ys then Inr (sum_list (map2 (*) xs ys)) else Inl ValueError)"

definition counter :: "int list \<Rightarrow> (int \<times> nat) list" where
  \<comment> \<open>\<open>Counter(labels)\<close>, keys in the order of first appearance.\<close>
  "counter xs =
     fold (\<lambda>x al. AList.update x (case map_of al x of None \<Rightarrow> 1 | Some c \<Rightarrow> c + 1) al) xs []"

definition most_common1 :: "int list \<Rightarrow> error + int \<times> nat" where
  \<comment> \<open>\<open>Counter(labels).most_common(1)[0]\<close>: the first key of maximal count; indexing the
      empty list raises.\<close>
  "most_common1 xs =
     (case counter xs of
        [] \<Rightarrow> Inl IndexError
      | p # ps \<Rightarrow> Inr (fold (\<lambda>q best. if snd best < snd q then q else best) ps p))"

definition exclude_largest :: "int list \<Rightarrow> int \<Rightarrow> nat \<Rightarrow> error + int list" where
  \<comment> \<open>\<open>np.where(labels==LC_label, np.arange(size*size), labels)\<close>\<close>
  "exclude_largest labels LC_label size' =
     ebind (broadcast2 [0..<size' * size'] labels) (\<lambda>ps.
       Inr (map (\<lambda>(i, l). if l = LC_label then int i else l) ps))"

definition corner_contribution :: "rat list \<Rightarrow> nat \<Rightarrow> error + rat" where
  \<comment> \<open>\<open>np.dot(np.arange(size//2), gap_stat[:size//2] + np.flip(gap_stat[size//2:]))
      / (2 * size)\<close>\<close>
  "corner_contribution gap_stat size' =
     ebind (np_add (take (size' div 2) gap_stat) (rev (drop (size' div 2) gap_stat))) (\<lambda>folded.
     ebind (np_dot_rat (map of_nat [0..<size' div 2]) folded) (\<lambda>s.
       Inr (s / (2 * of_nat size'))))"

definition analysis_labels ::
  "'a::{zero,times} ndarray \<Rightarrow> nat \<Rightarrow> string \<Rightarrow> (int list \<times> int list \<times> int \<times> nat) res" where
  \<comment> \<open>Source lines 63 to 71 of \<open>analysis\<close>: the labels of the labeler, the labels handed to
      the gap statistics, and the label and size of the largest cluster.\<close>
  "analysis_labels binned size' LC =
     rbind (lift (get_bonds_nd binned 2 ''one'')) (\<lambda>bonds.
     rbind (hoshen_kopelman_nd bonds [size', size'] 2 ''pp'' False) (\<lambda>labels.
     rbind (lift (most_common1 labels)) (\<lambda>(LC_label, LC_size).
     rbind (lift (if LC = ''exclude'' then exclude_largest labels LC_label size' else Inr labels))
       (\<lambda>labels'. Some (Inr (labels, labels', LC_label, LC_size))))))"

definition analysis ::
  "'a::{zero,times} ndarray \<Rightarrow> nat \<Rightarrow> string \<Rightarrow> (rat \<times> rat list \<times> nat) res" where
  "analysis binned size' LC =
     rbind (analysis_labels binned size' LC) (\<lambda>(labels, labels', LC_label, LC_size).
     rbind (lift (get_gapstat_2d labels' size' ''p'' True None)) (\<lambda>gap_stat.
     rbind (lift (corner_contribution gap_stat size')) (\<lambda>corner.
       Some (Inr (corner, gap_stat, LC_size)))))"

section \<open>Specification vocabulary: reachability, clusters and gap events\<close>

inductive reach :: "int list \<Rightarrow> int \<Rightarrow> int \<Rightarrow> bool" for l where
  reach_root: "0 \<le> r \<Longrightarrow> r < int (length l) \<Longrightarrow> l ! nat r = r \<Longrightarrow> reach l r r"
| reach_step: "0 \<le> x \<Longrightarrow> x < int (length l) \<Longrightarrow> l ! nat x \<noteq> x \<Longrightarrow> reach l (l ! nat x) r
     \<Longrightarrow> reach l x r"

definition eqcl :: "(nat \<times> nat) set \<Rightarrow> (nat \<times> nat) set" where
  "eqcl E = (E \<union> E\<inverse>)\<^sup>*"

definition uf_inv :: "(nat \<times> nat) set \<Rightarrow> int list \<Rightarrow> bool" where
  "uf_inv E l \<longleftrightarrow>
     (\<forall>i<length l. \<exists>r. reach l (int i) r \<and> (i, nat r) \<in> eqcl E) \<and>
     (\<forall>(u, v)\<in>E. u < length l \<and> v < length l \<and> find (int u) l = find (int v) l)"

definition parent_rel :: "int list \<Rightarrow> (int \<times> int) set" where
  "parent_rel l = {(x, l ! nat x) | x. 0 \<le> x \<and> x < int (length l) \<and> l ! nat x \<noteq> x}"

definition forest :: "int list \<Rightarrow> bool" where
  "forest l \<longleftrightarrow> (\<forall>v\<in>set l. 0 \<le> v \<and> v < int (length l)) \<and> acyclic (parent_rel l)"

definition is_root :: "int list \<Rightarrow> int \<Rightarrow> bool" where
  "is_root l r \<longleftrightarrow> 0 \<le> r \<and> r < int (length l) \<and> l ! nat r = r"

definition event_ok :: "write_event \<Rightarrow> bool" where
  "event_ok e \<longleftrightarrow>
     forest (ev_before e) \<and>
     0 \<le> ev_index e \<and> ev_index e < int (length (ev_before e)) \<and>
     is_root (ev_before e) (ev_value e) \<and>
     (ev_kind e \<noteq> Resolve \<longrightarrow> is_root (ev_before e) (ev_index e)) \<and>
     (ev_kind e = Primary \<longrightarrow> ev_value e \<noteq> ev_index e) \<and>
     (ev_kind e = Resolve \<longrightarrow> find (ev_index e) (ev_before e) = Some (Inr (ev_value e)))"

definition hk_inv :: "(nat \<times> nat) set \<Rightarrow> nat \<Rightarrow> hk_state \<Rightarrow> bool" where
  "hk_inv E N st \<longleftrightarrow> length (hk_labels st) = N \<and> uf_inv E (hk_labels st) \<and> list_all event_ok (hk_trace st)"

definition swept :: "nat \<Rightarrow> int list \<Rightarrow> bool" where
  "swept k l \<longleftrightarrow> (\<forall>j<length l. (k \<le> j \<longrightarrow> l ! j = int j) \<and> (j < k \<longrightarrow> l ! j < int k))"

definition wf_input :: "'a::zero npval ndarray list \<Rightarrow> nat list \<Rightarrow> nat \<Rightarrow> string \<Rightarrow> bool" where
  "wf_input bonds sizes d bc \<longleftrightarrow>
     length sizes = d \<and> length bonds = d \<and> length bc = d \<and>
     list_all (\<lambda>b. shape b = sizes \<and> length (data b) = prod_list sizes) bonds \<and>
     list_all (\<lambda>c. c = CHR ''o'' \<or> c = CHR ''p'') bc"

definition bond_active :: "'a::zero npval ndarray list \<Rightarrow> nat \<Rightarrow> nat list \<Rightarrow> bool" where
  "bond_active bonds n coords \<longleftrightarrow>
     (case nd_index (bonds ! n) coords of Inr b \<Rightarrow> truthy b | Inl e \<Rightarrow> False)"

definition site_edges ::
  "'a::zero npval ndarray list \<Rightarrow> nat list \<Rightarrow> nat list \<Rightarrow> nat set \<Rightarrow> (nat \<times> nat) set" where
  "site_edges bonds sizes cs A =
     {(ravel sizes cs, ravel sizes (cs[n := cs ! n - 1])) | n.
        n \<in> A \<and> cs ! n \<noteq> 0 \<and> bond_active bonds n cs}"

definition sweep_edges ::
  "'a::zero npval ndarray list \<Rightarrow> nat list \<Rightarrow> nat \<Rightarrow> (nat \<times> nat) set" where
  "sweep_edges bonds sizes k =
     (\<Union>j<k. site_edges bonds sizes (product_lists (ranges sizes) ! j) {0..<length sizes})"

definition axis_wrap_edges ::
  "'a::zero npval ndarray list \<Rightarrow> nat list \<Rightarrow> string \<Rightarrow> nat \<Rightarrow> (nat \<times> nat) set" where
  "axis_wrap_edges bonds sizes bc n =
     {(ravel sizes cs, ravel sizes (cs[n := sizes ! n - 1])) | cs.
        list_all2 (<) cs sizes \<and> cs ! n = 0 \<and> bc ! n = CHR ''p'' \<and> bond_active bonds n cs}"

definition interior_edges :: "'a::zero npval ndarray list \<Rightarrow> nat list \<Rightarrow> (nat \<times> nat) set" where
  "interior_edges bonds sizes =
     {(ravel sizes cs, ravel sizes (cs[n := cs ! n - 1])) | cs n.
        list_all2 (<) cs sizes \<and> n < length sizes \<and> cs ! n \<noteq> 0 \<and> bond_active bonds n cs}"

definition wrap_edges :: "'a::zero npval ndarray list \<Rightarrow> nat list \<Rightarrow> string \<Rightarrow> (nat \<times> nat) set" where
  "wrap_edges bonds sizes bc =
     {(ravel sizes cs, ravel sizes (cs[n := sizes ! n - 1])) | cs n.
        list_all2 (<) cs sizes \<and> n < length sizes \<and> cs ! n = 0 \<and> bc ! n = CHR ''p''
        \<and> bond_active bonds n cs}"

definition bond_connected :: "'a::zero npval ndarray list \<Rightarrow> nat list \<Rightarrow> string \<Rightarrow> (nat \<times> nat) set" where
  "bond_connected bonds sizes bc = eqcl (interior_edges bonds sizes \<union> wrap_edges bonds sizes bc)"

definition finds_return :: "int list \<Rightarrow> bool" where
  "finds_return l \<longleftrightarrow>
     (\<forall>x. 0 \<le> x \<and> x < int (length l) \<longrightarrow> (\<exists>r. find x l = Some (Inr r) \<and> is_root l r))"

definition primary_then_cross ::
  "'a::zero npval ndarray list \<Rightarrow> nat list \<Rightarrow> nat \<Rightarrow> nat list \<Rightarrow> nat \<Rightarrow> hk_state \<Rightarrow> hk_state res" where
  "primary_then_cross bonds cv d coords n st =
     rbind (lift (np_dot coords cv)) (\<lambda>idx_site.
     rbind (lift (py_index cv (int n))) (\<lambda>s.
       let idx_neighbor = int idx_site - int s in
       rbind (find idx_neighbor (hk_labels st)) (\<lambda>r.
       rbind (assign Primary (int idx_site) r st) (\<lambda>st'.
         for_loop [n + 1..<d] (cross_term bonds cv coords (int idx_site)) st'))))"

fun axis_scan_spec ::
  "'a::zero npval ndarray list \<Rightarrow> nat list \<Rightarrow> nat \<Rightarrow> nat list \<Rightarrow> nat list \<Rightarrow> hk_state \<Rightarrow> hk_state res" where
  "axis_scan_spec bonds cv d coords [] st = Some (Inr st)"
| "axis_scan_spec bonds cv d coords (n # ns) st =
     rbind (lift (py_index coords (int n))) (\<lambda>cn.
       if cn \<noteq> 0 then
         rbind (lift (py_index bonds (int n))) (\<lambda>bn.
         rbind (lift (nd_index bn coords)) (\<lambda>b.
           if truthy b then primary_then_cross bonds cv d coords n st
           else Some (Inr st)))
       else axis_scan_spec bonds cv d coords ns st)"

definition nd_val :: "'a ndarray \<Rightarrow> nat list \<Rightarrow> 'a" where
  "nd_val a coords = data a ! ravel (shape a) coords"

definition pred_coords :: "nat list \<Rightarrow> nat list \<Rightarrow> nat \<Rightarrow> nat list" where
  "pred_coords sh coords n = coords[n := (if coords ! n = 0 then sh ! n - 1 else coords ! n - 1)]"

definition row_line :: "int list \<Rightarrow> nat \<Rightarrow> nat \<Rightarrow> int list" where
  "row_line labels size' row = take size' (drop (row * size') labels)"

definition good :: "int option \<Rightarrow> int list \<Rightarrow> int list" where
  "good bad xs = filter (\<lambda>l. Some l \<noteq> bad) xs"

definition line_events :: "string \<Rightarrow> int option \<Rightarrow> int list \<Rightarrow> nat" where
  "line_events bc bad line =
     (length (good bad line) - length (remdups (good bad line)))
       + (if bc = ''p'' then length (remdups (good bad line)) else 0)"

definition gap_events :: "int list \<Rightarrow> nat \<Rightarrow> string \<Rightarrow> int option \<Rightarrow> nat" where
  "gap_events labels size' bc bad =
     sum_list (map (\<lambda>row. line_events bc bad (row_line labels size' row)) [0..<size'])"

definition claimed_line_events :: "string \<Rightarrow> int option \<Rightarrow> int list \<Rightarrow> nat" where
  "claimed_line_events bc bad line =
     length (filter (\<lambda>l. 2 \<le> count_list (good bad line) l) (remdups (good bad line)))
       + (if bc = ''p'' then length (remdups (good bad line)) else 0)"

definition claimed_gap_events :: "int list \<Rightarrow> nat \<Rightarrow> string \<Rightarrow> int option \<Rightarrow> nat" where
  "claimed_gap_events labels size' bc bad =
     sum_list (map (\<lambda>row. claimed_line_events bc bad (row_line labels size' row)) [0..<size'])"

fun repeats :: "int option \<Rightarrow> int set \<Rightarrow> int list \<Rightarrow> nat" where
  "repeats bad K [] = 0"
| "repeats bad K (x # xs) =
     (if Some x \<noteq> bad then (if x \<in> K then 1 else 0) + repeats bad (insert x K) xs
      else repeats bad K xs)"

definition seen_inv :: "nat \<Rightarrow> nat \<Rightarrow> rat list \<times> seen \<times> seen \<Rightarrow> bool" where
  "seen_inv n i s \<longleftrightarrow>
     (case s of (f, fs, ls) \<Rightarrow>
        length f = n \<and> distinct (map fst ls) \<and>
        (\<forall>lab b. map_of ls lab = Some b \<longrightarrow> b < i \<and> (\<exists>a. map_of fs lab = Some a \<and> a \<le> b)))"


definition corner_sum :: "rat list \<Rightarrow> nat \<Rightarrow> rat" where
  "corner_sum g size' =
     (\<Sum>ell<size' div 2. of_nat ell * (g ! ell + g ! (size' - 1 - ell))) / (2 * of_nat size')"

definition union_to_different_root :: "write_event \<Rightarrow> bool" where
  "union_to_different_root e \<longleftrightarrow> is_root (ev_before e) (ev_value e) \<and> ev_value e \<noteq> ev_index e"

definition union_writes :: "hk_state \<Rightarrow> (write_kind \<times> int list \<times> int \<times> int \<times> bool) list" where
  "union_writes st =
     map (\<lambda>e. (ev_kind e, ev_before e, ev_index e, ev_value e, union_to_different_root e))
       (filter (\<lambda>e. ev_kind e \<noteq> Resolve) (hk_trace st))"

section \<open>Correctness of the Hoshen-Kopelman labeler\<close>

lemma py_index_in_range:
  "0 \<le> i \<Longrightarrow> i < int (length xs) \<Longrightarrow> py_index xs i = Inr (xs ! nat i)"
  by (simp add: py_index_def)

lemma py_index_nat: "n < length xs \<Longrightarrow> py_index xs (int n) = Inr (xs ! n)"
  by (simp add: py_index_def)

lemma py_store_in_range:
  "0 \<le> i \<Longrightarrow> i < int (length xs) \<Longrightarrow> py_store xs i v = Inr (xs[nat i := v])"
  by (simp add: py_store_def)

lemma reach_find: "reach l x r \<Longrightarrow> find x l = Some (Inr r)"
proof (induction rule: reach.induct)
  case (reach_root r)
  then show ?case by (subst find.simps) (simp add: py_index_in_range)
next
  case (reach_step x r)
  then show ?case by (subst find.simps) (simp add: py_index_in_range)
qed

lemma reach_is_root: "reach l x r \<Longrightarrow> 0 \<le> r \<and> r < int (length l) \<and> l ! nat r = r"
  by (induction rule: reach.induct) auto

lemma reach_dom: "reach l x r \<Longrightarrow> 0 \<le> x \<and> x < int (length l)"
  by (induction rule: reach.induct) auto

lemma reach_unique: "reach l x r \<Longrightarrow> reach l x r' \<Longrightarrow> r = r'"
  by (auto dest!: reach_find)

lemma reach_union:
  assumes "reach l x r"
    and a: "0 \<le> a" "a < int (length l)" "l ! nat a = a"
    and b: "0 \<le> b" "b < int (length l)" "l ! nat b = b"
  shows "reach (l[nat a := b]) x (if r = a then b else r)"
  using assms(1)
proof (induction rule: reach.induct)
  case (reach_root r)
  show ?case
  proof (cases "r = a")
    case True
    have rb: "reach (l[nat a := b]) b b"
      using a b by (auto intro!: reach.reach_root simp: nth_list_update)
    show ?thesis
    proof (cases "b = a")
      case True
      with rb \<open>r = a\<close> show ?thesis by simp
    next
      case False
      have "reach (l[nat a := b]) a b"
        using a b False rb by (auto intro!: reach.reach_step[of a _ b] simp: nth_list_update)
      with \<open>r = a\<close> show ?thesis by simp
    qed
  next
    case False
    then have "nat r \<noteq> nat a" using reach_root a by auto
    with reach_root False show ?thesis
      by (auto intro!: reach.reach_root simp: nth_list_update)
  qed
next
  case (reach_step x r)
  then have "x \<noteq> a" using a by auto
  then have "nat x \<noteq> nat a" using reach_step a by auto
  then have "l[nat a := b] ! nat x = l ! nat x" by simp
  with reach_step show ?case
    by (auto intro: reach.reach_step)
qed

lemma reach_compress:
  assumes "reach l x r" and i: "reach l i ri"
  shows "reach (l[nat i := ri]) x r"
  using assms(1)
proof (induction rule: reach.induct)
  case (reach_root r)
  show ?case
  proof (cases "r = i")
    case True
    have "reach l r r" using reach_root by (auto intro: reach.reach_root)
    then have "ri = r" using i True reach_unique by blast
    with reach_root True show ?thesis
      by (auto intro!: reach.reach_root simp: nth_list_update)
  next
    case False
    then have "nat r \<noteq> nat i" using reach_root reach_dom[OF i] by auto
    with reach_root show ?thesis
      by (auto intro!: reach.reach_root simp: nth_list_update)
  qed
next
  case (reach_step x r)
  note ri = reach_is_root[OF i] and di = reach_dom[OF i]
  show ?case
  proof (cases "x = i")
    case True
    have "reach l x r" using reach_step by (auto intro: reach.reach_step)
    then have eq: "ri = r" using i True reach_unique by blast
    have "ri \<noteq> i" using ri reach_step True by auto
    then have "nat r \<noteq> nat i" using eq ri di by auto
    then have rr: "reach (l[nat i := ri]) r r"
      using ri eq by (auto intro!: reach.reach_root simp: nth_list_update)
    have "nat i < length l" using di by auto
    then have "l[nat i := ri] ! nat i = r" using eq by simp
    with True rr di eq \<open>ri \<noteq> i\<close> show ?thesis
      by (auto intro: reach.reach_step)
  next
    case False
    then have "nat x \<noteq> nat i" using reach_step di by auto
    then have "l[nat i := ri] ! nat x = l ! nat x" by simp
    with reach_step show ?thesis by (auto intro: reach.reach_step)
  qed
qed

lemma upt_blocks: "concat (map (\<lambda>x. map (\<lambda>i. x * p + i) [0..<p]) [0..<s]) = [0..<s * p]"
proof (induction s)
  case 0
  then show ?case by simp
next
  case (Suc s)
  have "map (\<lambda>i. s * p + i) [0..<p] = [s * p..<s * p + p]"
    by (simp add: map_add_upt add.commute)
  moreover have "[0..<s * p + p] = [0..<s * p] @ [s * p..<s * p + p]"
    using upt_add_eq_append[of 0 "s * p" p] by simp
  ultimately show ?case using Suc by (simp add: add.commute)
qed

lemma in_ranges: "cs \<in> set (product_lists (ranges sh)) \<longleftrightarrow> list_all2 (<) cs sh"
  by (simp add: product_lists_set ranges_def list_all2_map2)

lemma ravel_ranges: "map (ravel sh) (product_lists (ranges sh)) = [0..<prod_list sh]"
proof (induction sh)
  case Nil
  then show ?case by (simp add: ranges_def)
next
  case (Cons s sh)
  have "map (ravel (s # sh)) (product_lists (ranges (s # sh)))
      = concat (map (\<lambda>x. map (\<lambda>cs. x * prod_list sh + ravel sh cs) (product_lists (ranges sh))) [0..<s])"
    by (simp add: ranges_def map_concat comp_def)
  also have "\<dots> = concat (map (\<lambda>x. map (\<lambda>i. x * prod_list sh + i) (map (ravel sh) (product_lists (ranges sh)))) [0..<s])"
    by (simp add: comp_def)
  also have "\<dots> = [0..<s * prod_list sh]"
    unfolding Cons.IH by (rule upt_blocks)
  finally show ?case by simp
qed

lemma length_ranges_product: "length (product_lists (ranges sh)) = prod_list sh"
  using arg_cong[OF ravel_ranges, of length sh] by simp

lemma ravel_nth: "k < prod_list sh \<Longrightarrow> ravel sh (product_lists (ranges sh) ! k) = k"
  using arg_cong[OF ravel_ranges, of "\<lambda>xs. xs ! k" sh] by (simp add: length_ranges_product)

lemma ravel_less: "list_all2 (<) cs sh \<Longrightarrow> ravel sh cs < prod_list sh"
proof -
  assume "list_all2 (<) cs sh"
  then have "cs \<in> set (product_lists (ranges sh))" by (simp add: in_ranges)
  then have "ravel sh cs \<in> set (map (ravel sh) (product_lists (ranges sh)))" by simp
  then show ?thesis by (simp add: ravel_ranges)
qed

lemma np_dot_convert_vec:
  "length cs = length sh \<Longrightarrow> np_dot cs (convert_vec sh (length sh)) = Inr (ravel sh cs)"
proof -
  have "length cs = length sh \<Longrightarrow> sum_list (map2 (*) cs (map (\<lambda>k. prod_list (drop (k + 1) sh)) [0..<length sh])) = ravel sh cs"
  proof (induction sh arbitrary: cs)
    case Nil
    then show ?case by simp
  next
    case (Cons s sh)
    then obtain c cs' where cs: "cs = c # cs'" "length cs' = length sh" by (cases cs) auto
    have "[0..<length (s # sh)] = 0 # map Suc [0..<length sh]"
      by (simp add: upt_conv_Cons map_Suc_upt del: upt_Suc)
    then show ?case using Cons.IH[OF cs(2)] cs by (simp add: comp_def del: upt_Suc)
  qed
  then show "length cs = length sh \<Longrightarrow> ?thesis" by (simp add: np_dot_def convert_vec_def)
qed

lemma convert_vec_nth: "n < d \<Longrightarrow> convert_vec sh d ! n = prod_list (drop (Suc n) sh)"
  by (simp add: convert_vec_def)

lemma ravel_update:
  "list_all2 (<) cs sh \<Longrightarrow> n < length sh \<Longrightarrow>
     ravel sh (cs[n := v]) + cs ! n * prod_list (drop (Suc n) sh) = ravel sh cs + v * prod_list (drop (Suc n) sh)"
proof (induction sh arbitrary: cs n)
  case Nil
  then show ?case by simp
next
  case (Cons s sh)
  then obtain c cs' where cs: "cs = c # cs'" "list_all2 (<) cs' sh" by (cases cs) auto
  show ?case
  proof (cases n)
    case 0
    then show ?thesis using cs by simp
  next
    case (Suc m)
    then show ?thesis using cs Cons.IH[OF cs(2), of m] Cons.prems by simp
  qed
qed

lemma rbind_Inr [simp]: "rbind (Some (Inr v)) f = f v"
  by (simp add: rbind_def)

lemma rbind_lift_Inr [simp]: "rbind (lift (Inr v)) f = f v"
  by (simp add: rbind_def lift_def)

lemma rbind_eq_Inr:
  "rbind m f = Some (Inr y) \<longleftrightarrow> (\<exists>v. m = Some (Inr v) \<and> f v = Some (Inr y))"
  by (auto simp: rbind_def split: option.splits sum.splits)

lemma lift_eq_Inr [simp]: "lift r = Some (Inr v) \<longleftrightarrow> r = Inr v"
  by (simp add: lift_def)

lemma for_loop_drop:
  assumes step: "\<And>k s. k < length xs \<Longrightarrow> I k s \<Longrightarrow> \<exists>s'. body (xs ! k) s = Some (Inr s') \<and> I (Suc k) s'"
  shows "k \<le> length xs \<Longrightarrow> I k s \<Longrightarrow> \<exists>s'. for_loop (drop k xs) body s = Some (Inr s') \<and> I (length xs) s'"
proof (induction "length xs - k" arbitrary: k s)
  case 0
  then show ?case by simp
next
  case (Suc m)
  then have k: "k < length xs" by simp
  from step[OF k Suc.prems(2)] obtain s' where s': "body (xs ! k) s = Some (Inr s')" "I (Suc k) s'"
    by blast
  have "m = length xs - Suc k" using Suc.hyps(2) by simp
  from Suc.hyps(1)[OF this _ s'(2)] k
  obtain s'' where "for_loop (drop (Suc k) xs) body s' = Some (Inr s'')" "I (length xs) s''"
    by auto
  then show ?case using s'(1) k by (simp add: Cons_nth_drop_Suc[symmetric])
qed

lemma for_loop_rule:
  assumes "I 0 s"
    and "\<And>k s. k < length xs \<Longrightarrow> I k s \<Longrightarrow> \<exists>s'. body (xs ! k) s = Some (Inr s') \<and> I (Suc k) s'"
  shows "\<exists>s'. for_loop xs body s = Some (Inr s') \<and> I (length xs) s'"
  using for_loop_drop[of xs I body 0 s] assms by simp

lemma for_loop_preserve:
  assumes "\<And>x s s'. x \<in> set xs \<Longrightarrow> body x s = Some (Inr s') \<Longrightarrow> P s \<Longrightarrow> P s'"
  shows "for_loop xs body s = Some (Inr s') \<Longrightarrow> P s \<Longrightarrow> P s'"
  using assms
proof (induction xs arbitrary: s)
  case Nil
  then show ?case by simp
next
  case (Cons x xs)
  from Cons.prems(1) obtain s1 where s1: "body x s = Some (Inr s1)" "for_loop xs body s1 = Some (Inr s')"
    by (auto simp: rbind_eq_Inr)
  have "P s1" using Cons.prems(3)[OF _ s1(1) Cons.prems(2)] by simp
  moreover have "\<And>y t t'. y \<in> set xs \<Longrightarrow> body y t = Some (Inr t') \<Longrightarrow> P t \<Longrightarrow> P t'"
    using Cons.prems(3) by (meson list.set_intros(2))
  ultimately show ?case using Cons.IH[OF s1(2)] by blast
qed

lemma eqcl_refl [simp]: "(x, x) \<in> eqcl E" by (simp add: eqcl_def)

lemma eqcl_sym: "(x, y) \<in> eqcl E \<Longrightarrow> (y, x) \<in> eqcl E"
  unfolding eqcl_def
  by (metis converse_Un converse_converse rtrancl_converseI sup_commute)

lemma eqcl_trans: "(x, y) \<in> eqcl E \<Longrightarrow> (y, z) \<in> eqcl E \<Longrightarrow> (x, z) \<in> eqcl E"
  unfolding eqcl_def by (rule rtrancl_trans)

lemma eqcl_edge: "(x, y) \<in> E \<Longrightarrow> (x, y) \<in> eqcl E"
  unfolding eqcl_def by blast

lemma eqcl_mono: "E \<subseteq> E' \<Longrightarrow> eqcl E \<subseteq> eqcl E'"
  unfolding eqcl_def by (intro rtrancl_mono) blast

lemma uf_inv_reach: "uf_inv E l \<Longrightarrow> i < length l \<Longrightarrow> \<exists>r. reach l (int i) r \<and> (i, nat r) \<in> eqcl E"
  by (simp add: uf_inv_def)

lemma uf_inv_union:
  assumes inv: "uf_inv E l"
    and u: "u < length l" "reach l (int u) a"
    and v: "v < length l" "reach l (int v) b"
    and E': "E \<subseteq> E'" "E' \<subseteq> E \<union> {(u, v), (v, u)}" "(u, v) \<in> E' \<or> (v, u) \<in> E'"
  shows "uf_inv E' (l[nat a := b])"
proof -
  let ?l = "l[nat a := b]"
  note ra = reach_is_root[OF u(2)] and rb = reach_is_root[OF v(2)]
  have upd: "\<And>x r. reach l x r \<Longrightarrow> reach ?l x (if r = a then b else r)"
    using reach_union ra rb by blast
  have mono: "eqcl E \<subseteq> eqcl E'" using E'(1) by (rule eqcl_mono)
  have uv: "(u, v) \<in> eqcl E'" using E'(3) eqcl_edge eqcl_sym by blast
  from uf_inv_reach[OF inv u(1)] u(2) have "(u, nat a) \<in> eqcl E"
    using reach_unique by blast
  then have ua: "(u, nat a) \<in> eqcl E'" using mono by blast
  from uf_inv_reach[OF inv v(1)] v(2) have "(v, nat b) \<in> eqcl E"
    using reach_unique by blast
  then have vb: "(v, nat b) \<in> eqcl E'" using mono by blast
  have ab: "(nat a, nat b) \<in> eqcl E'"
    using eqcl_trans[OF eqcl_sym[OF ua] eqcl_trans[OF uv vb]] .
  have 1: "\<exists>r. reach ?l (int i) r \<and> (i, nat r) \<in> eqcl E'" if "i < length ?l" for i
  proof -
    from that uf_inv_reach[OF inv, of i] obtain r where r: "reach l (int i) r" "(i, nat r) \<in> eqcl E"
      by auto
    show ?thesis
    proof (cases "r = a")
      case True
      then have "reach ?l (int i) b" using upd[OF r(1)] by simp
      moreover have "(i, nat a) \<in> eqcl E'" using r(2) True mono by blast
      then have "(i, nat b) \<in> eqcl E'" using ab by (rule eqcl_trans)
      ultimately show ?thesis by blast
    next
      case False
      then have "reach ?l (int i) r" using upd[OF r(1)] by simp
      then show ?thesis using r(2) mono by blast
    qed
  qed
  have "reach ?l (int u) b" using upd[OF u(2)] by simp
  then have fu: "find (int u) ?l = Some (Inr b)" by (rule reach_find)
  have "reach ?l (int v) b" using upd[OF v(2)] by (simp split: if_splits)
  then have fv: "find (int v) ?l = Some (Inr b)" by (rule reach_find)
  have 2: "x < length ?l \<and> y < length ?l \<and> find (int x) ?l = find (int y) ?l" if "(x, y) \<in> E'" for x y
  proof (cases "(x, y) \<in> E")
    case True
    with inv have xy: "x < length l" "y < length l" "find (int x) l = find (int y) l"
      by (auto simp: uf_inv_def)
    from uf_inv_reach[OF inv xy(1)] obtain r where r: "reach l (int x) r" by blast
    from uf_inv_reach[OF inv xy(2)] obtain r' where r': "reach l (int y) r'" by blast
    have "r' = r" using reach_find[OF r] reach_find[OF r'] xy(3) by simp
    then have "find (int x) ?l = find (int y) ?l"
      using reach_find[OF upd[OF r]] reach_find[OF upd[OF r']] by simp
    then show ?thesis using xy by simp
  next
    case False
    then have "(x, y) = (u, v) \<or> (x, y) = (v, u)" using that E'(2) by blast
    then show ?thesis using fu fv u(1) v(1) by auto
  qed
  show ?thesis unfolding uf_inv_def using 1 2 by blast
qed

lemma reach_no_cycle: "reach l x r \<Longrightarrow> (x, x) \<notin> (parent_rel l)\<^sup>+"
proof (induction rule: reach.induct)
  case (reach_root r)
  show ?case
  proof
    assume "(r, r) \<in> (parent_rel l)\<^sup>+"
    then obtain z where "(r, z) \<in> parent_rel l" by (meson tranclD)
    then show False using reach_root by (auto simp: parent_rel_def)
  qed
next
  case (reach_step x r)
  let ?p = "l ! nat x"
  show ?case
  proof
    assume xx: "(x, x) \<in> (parent_rel l)\<^sup>+"
    then obtain z where z: "(x, z) \<in> parent_rel l" "(z, x) \<in> (parent_rel l)\<^sup>*" by (meson tranclD)
    then have zp: "z = ?p" by (auto simp: parent_rel_def)
    with z reach_step(3) have "(?p, x) \<in> (parent_rel l)\<^sup>+" by (metis rtranclD)
    moreover have "(x, ?p) \<in> parent_rel l" using z zp by simp
    ultimately have "(?p, ?p) \<in> (parent_rel l)\<^sup>+" by (meson trancl.trancl_into_trancl)
    with reach_step.IH show False by simp
  qed
qed

lemma all_reach_forest:
  assumes "\<And>i. i < length l \<Longrightarrow> \<exists>r. reach l (int i) r"
  shows "forest l"
proof -
  have "0 \<le> l ! i \<and> l ! i < int (length l)" if "i < length l" for i
  proof -
    from assms[OF that] obtain r where "reach l (int i) r" by blast
    then show ?thesis
      by (cases rule: reach.cases) (auto dest: reach_dom)
  qed
  then have 1: "\<forall>v\<in>set l. 0 \<le> v \<and> v < int (length l)" by (auto simp: in_set_conv_nth)
  have "(x, x) \<notin> (parent_rel l)\<^sup>+" for x
  proof
    assume xx: "(x, x) \<in> (parent_rel l)\<^sup>+"
    then obtain z where "(x, z) \<in> parent_rel l" by (meson tranclD)
    then have "0 \<le> x" "x < int (length l)" by (auto simp: parent_rel_def)
    then have "nat x < length l" "int (nat x) = x" by auto
    with assms[of "nat x"] obtain r where "reach l x r" by auto
    with xx reach_no_cycle show False by blast
  qed
  then have "acyclic (parent_rel l)" by (simp add: acyclic_def)
  with 1 show ?thesis by (simp add: forest_def)
qed

lemma uf_inv_forest: "uf_inv E l \<Longrightarrow> forest l"
  by (rule all_reach_forest) (auto dest: uf_inv_reach)

lemma reach_imp_is_root: "reach l x r \<Longrightarrow> is_root l r"
  using reach_is_root by (simp add: is_root_def)

lemma assign_union:
  assumes inv: "hk_inv E N st"
    and u: "u < N" "reach (hk_labels st) (int u) a"
    and v: "v < N" "reach (hk_labels st) (int v) b"
    and E': "E \<subseteq> E'" "E' \<subseteq> E \<union> {(u, v), (v, u)}" "(u, v) \<in> E' \<or> (v, u) \<in> E'"
    and k: "k \<noteq> Resolve" "k = Primary \<longrightarrow> b \<noteq> a"
  shows "\<exists>st'. assign k a b st = Some (Inr st') \<and> hk_labels st' = (hk_labels st)[nat a := b] \<and> hk_inv E' N st'"
proof -
  let ?l = "hk_labels st"
  from inv have len: "length ?l = N" and uf: "uf_inv E ?l" and tr: "list_all event_ok (hk_trace st)"
    by (auto simp: hk_inv_def)
  note ra = reach_is_root[OF u(2)] and rb = reach_is_root[OF v(2)]
  let ?e = "\<lparr>ev_kind = k, ev_before = ?l, ev_index = a, ev_value = b\<rparr>"
  let ?st = "\<lparr>hk_labels = ?l[nat a := b], hk_trace = hk_trace st @ [?e]\<rparr>"
  have "assign k a b st = Some (Inr ?st)"
    using ra by (simp add: assign_def py_store_in_range)
  moreover have "uf_inv E' (?l[nat a := b])"
    using uf_inv_union[OF uf _ u(2) _ v(2) E'] u(1) v(1) len by simp
  moreover have "event_ok ?e"
    using uf_inv_forest[OF uf] ra rb k by (simp add: event_ok_def is_root_def)
  ultimately show ?thesis using len tr by (auto simp: hk_inv_def)
qed

lemma reach_below: "reach l x r \<Longrightarrow> swept k l \<Longrightarrow> x < int k \<Longrightarrow> r < int k"
proof (induction rule: reach.induct)
  case (reach_root r)
  then show ?case by simp
next
  case (reach_step x r)
  then have "nat x < length l" "nat x < k" by auto
  with reach_step.prems(1) have "l ! nat x < int k" by (simp add: swept_def)
  with reach_step show ?case by simp
qed

lemma swept_Suc: "swept k l \<Longrightarrow> swept (Suc k) l"
  unfolding swept_def by (metis less_Suc_eq less_Suc_eq_le not_less of_nat_less_iff order.strict_trans)

lemma swept_update:
  "swept k l \<Longrightarrow> 0 \<le> a \<Longrightarrow> a < int k \<Longrightarrow> b < int k \<Longrightarrow> swept k (l[nat a := b])"
proof -
  assume sw: "swept k l" and a: "0 \<le> a" "a < int k" and b: "b < int k"
  have "(k \<le> j \<longrightarrow> l[nat a := b] ! j = int j) \<and> (j < k \<longrightarrow> l[nat a := b] ! j < int k)"
    if "j < length l" for j
  proof (cases "j = nat a")
    case True
    then have "\<not> k \<le> j" using a by linarith
    then show ?thesis using True that b by simp
  next
    case False
    then show ?thesis using that sw by (simp add: swept_def)
  qed
  then show ?thesis by (simp add: swept_def)
qed

lemma swept_primary:
  "swept k l \<Longrightarrow> b < int k \<Longrightarrow> swept (Suc k) (l[k := b])"
  unfolding swept_def by (auto simp: nth_list_update less_Suc_eq)

lemma swept_self: "swept k l \<Longrightarrow> k < length l \<Longrightarrow> reach l (int k) (int k)"
  by (rule reach_root) (auto simp: swept_def)

lemma valid_sizes_pos: "list_all2 (<) cs (sh::nat list) \<Longrightarrow> 0 < prod_list (drop k sh)"
proof -
  assume "list_all2 (<) cs sh"
  then have *: "\<And>i. i < length sh \<Longrightarrow> cs ! i < sh ! i" by (simp add: list_all2_conv_all_nth)
  have "0 < sh ! i" if "i < length sh" for i using *[OF that] by linarith
  then have "\<forall>s\<in>set sh. 0 < s" by (auto simp: in_set_conv_nth)
  then have "\<forall>s\<in>set (drop k sh). 0 < s" by (meson in_set_dropD)
  moreover have "(\<forall>s\<in>set xs. 0 < s) \<Longrightarrow> 0 < prod_list xs" for xs :: "nat list"
    by (induction xs) auto
  ultimately show ?thesis by blast
qed

lemma ravel_pred:
  assumes "list_all2 (<) cs sh" "n < length sh" "cs ! n \<noteq> 0"
  shows "ravel sh cs = ravel sh (cs[n := cs ! n - 1]) + prod_list (drop (Suc n) sh)"
proof -
  let ?S = "prod_list (drop (Suc n) sh)"
  from ravel_update[OF assms(1,2), of "cs ! n - 1"]
  have "ravel sh (cs[n := cs ! n - 1]) + cs ! n * ?S = ravel sh cs + (cs ! n - 1) * ?S" .
  moreover have "cs ! n * ?S = (cs ! n - 1) * ?S + ?S"
    using assms(3) by (cases "cs ! n") auto
  ultimately show ?thesis by simp
qed

lemma ravel_wrap:
  assumes "list_all2 (<) cs sh" "n < length sh" "cs ! n = 0"
  shows "ravel sh (cs[n := sh ! n - 1]) = ravel sh cs + prod_list (drop (Suc n) sh) * (sh ! n - 1)"
  using ravel_update[OF assms(1,2), of "sh ! n - 1"] assms(3) by (simp add: mult.commute)

lemma valid_update: "list_all2 (<) cs (sh::nat list) \<Longrightarrow> n < length sh \<Longrightarrow> v < sh ! n \<Longrightarrow> list_all2 (<) (cs[n := v]) sh"
  by (auto simp: list_all2_conv_all_nth nth_list_update)

lemma access:
  assumes wf: "wf_input bonds sizes d bc" and cs: "list_all2 (<) cs sizes" and n: "n < d"
  shows "py_index cs (int n) = Inr (cs ! n)"
    and "py_index bonds (int n) = Inr (bonds ! n)"
    and "nd_index (bonds ! n) cs = Inr (data (bonds ! n) ! ravel sizes cs)"
    and "np_dot cs (convert_vec sizes d) = Inr (ravel sizes cs)"
    and "py_index (convert_vec sizes d) (int n) = Inr (prod_list (drop (Suc n) sizes))"
    and "py_index sizes (int n) = Inr (sizes ! n)"
    and "py_index bc (int n) = Inr (bc ! n)"
    and "bond_active bonds n cs = truthy (data (bonds ! n) ! ravel sizes cs)"
proof -
  from wf have len: "length sizes = d" "length bonds = d" "length bc = d"
    and b: "shape (bonds ! n) = sizes" "length (data (bonds ! n)) = prod_list sizes"
    using n by (auto simp: wf_input_def list_all_length)
  from cs have lcs: "length cs = d" using len by (auto dest: list_all2_lengthD)
  show "py_index cs (int n) = Inr (cs ! n)" using lcs n by (simp add: py_index_nat)
  show "py_index bonds (int n) = Inr (bonds ! n)" using len n by (simp add: py_index_nat)
  show 3: "nd_index (bonds ! n) cs = Inr (data (bonds ! n) ! ravel sizes cs)"
    using b cs ravel_less[OF cs] by (simp add: nd_index_def)
  show "np_dot cs (convert_vec sizes d) = Inr (ravel sizes cs)"
    using np_dot_convert_vec[of cs sizes] lcs len by simp
  show "py_index (convert_vec sizes d) (int n) = Inr (prod_list (drop (Suc n) sizes))"
    using n by (simp add: py_index_nat convert_vec_def)
  show "py_index sizes (int n) = Inr (sizes ! n)" using len n by (simp add: py_index_nat)
  show "py_index bc (int n) = Inr (bc ! n)" using len n by (simp add: py_index_nat)
  show "bond_active bonds n cs = truthy (data (bonds ! n) ! ravel sizes cs)"
    by (simp add: bond_active_def 3)
qed

lemma site_edges_insert:
  "site_edges bonds sizes cs (insert m A) =
     (if cs ! m \<noteq> 0 \<and> bond_active bonds m cs
      then insert (ravel sizes cs, ravel sizes (cs[m := cs ! m - 1])) (site_edges bonds sizes cs A)
      else site_edges bonds sizes cs A)"
  by (auto simp: site_edges_def)

lemma site_edges_empty [simp]: "site_edges bonds sizes cs {} = {}"
  by (simp add: site_edges_def)

lemma cross_term_step:
  assumes wf: "wf_input bonds sizes d bc" and cs: "list_all2 (<) cs sizes" and m: "m < d"
    and inv: "hk_inv (E \<union> site_edges bonds sizes cs A) (prod_list sizes) st"
    and sw: "swept (Suc (ravel sizes cs)) (hk_labels st)"
  shows "\<exists>st'. cross_term bonds (convert_vec sizes d) cs (int (ravel sizes cs)) m st = Some (Inr st')
           \<and> hk_inv (E \<union> site_edges bonds sizes cs (insert m A)) (prod_list sizes) st'
           \<and> swept (Suc (ravel sizes cs)) (hk_labels st')"
proof (cases "cs ! m \<noteq> 0 \<and> bond_active bonds m cs")
  case False
  then show ?thesis using inv sw
    by (auto simp: cross_term_def access[OF wf cs m] site_edges_insert)
next
  case True
  let ?k = "ravel sizes cs" and ?v = "ravel sizes (cs[m := cs ! m - 1])" and ?l = "hk_labels st"
  let ?N = "prod_list sizes"
  from wf m have lsz: "m < length sizes" by (simp add: wf_input_def)
  have k: "?k < ?N" using ravel_less[OF cs] .
  have kv: "?k = ?v + prod_list (drop (Suc m) sizes)" using ravel_pred[OF cs lsz] True by simp
  have "0 < prod_list (drop (Suc m) sizes)" using valid_sizes_pos[OF cs] .
  with kv have vk: "?v < ?k" by linarith
  then have v: "?v < ?N" using k by simp
  have nb: "int ?k - int (prod_list (drop (Suc m) sizes)) = int ?v" using kv by linarith
  from inv have len: "length ?l = ?N" and uf: "uf_inv (E \<union> site_edges bonds sizes cs A) ?l"
    by (auto simp: hk_inv_def)
  from uf_inv_reach[OF uf, of ?k] k len obtain rs where rs: "reach ?l (int ?k) rs" by auto
  from uf_inv_reach[OF uf, of ?v] v len obtain rn where rn: "reach ?l (int ?v) rn" by auto
  have rs_lt: "rs < int (Suc ?k)" using reach_below[OF rs sw] by simp
  have rn_lt: "rn < int (Suc ?k)" using reach_below[OF rn sw] vk by simp
  let ?E' = "E \<union> site_edges bonds sizes cs (insert m A)"
  have E': "?E' = insert (?k, ?v) (E \<union> site_edges bonds sizes cs A)"
    using True by (simp add: site_edges_insert)
  from assign_union[OF inv v rn k rs, of ?E' Cross]
  obtain st' where st': "assign Cross rn rs st = Some (Inr st')" "hk_labels st' = ?l[nat rn := rs]"
    "hk_inv ?E' ?N st'"
    unfolding E' by auto
  have "swept (Suc ?k) (hk_labels st')"
    unfolding st'(2) using sw reach_is_root[OF rn] rn_lt rs_lt by (intro swept_update) auto
  moreover have "cross_term bonds (convert_vec sizes d) cs (int ?k) m st = Some (Inr st')"
    using True st'(1) reach_find[OF rs] reach_find[OF rn]
    by (simp add: cross_term_def access[OF wf cs m] nb)
  ultimately show ?thesis using st'(3) by blast
qed

lemma cross_loop_ok:
  assumes wf: "wf_input bonds sizes d bc" and cs: "list_all2 (<) cs sizes"
    and inv: "hk_inv E (prod_list sizes) st"
    and sw: "swept (Suc (ravel sizes cs)) (hk_labels st)"
  shows "\<exists>st'. for_loop [n..<d] (cross_term bonds (convert_vec sizes d) cs (int (ravel sizes cs))) st
             = Some (Inr st')
           \<and> hk_inv (E \<union> site_edges bonds sizes cs {n..<d}) (prod_list sizes) st'
           \<and> swept (Suc (ravel sizes cs)) (hk_labels st')"
proof -
  let ?ms = "[n..<d]"
  let ?I = "\<lambda>j st. hk_inv (E \<union> site_edges bonds sizes cs (set (take j ?ms))) (prod_list sizes) st
              \<and> swept (Suc (ravel sizes cs)) (hk_labels st)"
  have "\<exists>st'. for_loop ?ms (cross_term bonds (convert_vec sizes d) cs (int (ravel sizes cs))) st
             = Some (Inr st') \<and> ?I (length ?ms) st'"
  proof (rule for_loop_rule[where I = ?I])
    show "?I 0 st" using inv sw by simp
  next
    fix j s
    assume j: "j < length ?ms" and I: "?I j s"
    then have m: "?ms ! j < d" by simp
    have "set (take (Suc j) ?ms) = insert (?ms ! j) (set (take j ?ms))"
      using j by (simp add: take_Suc_conv_app_nth)
    with cross_term_step[OF wf cs m, of E "set (take j ?ms)" s] I
    show "\<exists>s'. cross_term bonds (convert_vec sizes d) cs (int (ravel sizes cs)) (?ms ! j) s = Some (Inr s')
            \<and> ?I (Suc j) s'"
      by simp
  qed
  then show ?thesis by simp
qed

lemma site_edges_Un:
  "site_edges bonds sizes cs (A \<union> B) = site_edges bonds sizes cs A \<union> site_edges bonds sizes cs B"
  by (auto simp: site_edges_def)

lemma axis_scan_ok:
  assumes wf: "wf_input bonds sizes d bc" and cs: "list_all2 (<) cs sizes"
  shows "n \<le> d \<Longrightarrow> hk_inv E (prod_list sizes) st \<Longrightarrow> swept (ravel sizes cs) (hk_labels st) \<Longrightarrow>
     \<exists>st'. axis_scan bonds (convert_vec sizes d) d cs [n..<d] st = Some (Inr st')
           \<and> hk_inv (E \<union> site_edges bonds sizes cs {n..<d}) (prod_list sizes) st'
           \<and> swept (Suc (ravel sizes cs)) (hk_labels st')"
proof (induction "d - n" arbitrary: n)
  case 0
  then show ?case by (simp add: swept_Suc)
next
  case (Suc x)
  then have n: "n < d" by simp
  then have upt: "[n..<d] = n # [Suc n..<d]" by (simp add: upt_conv_Cons)
  have set_eq: "{n..<d} = insert n {Suc n..<d}" using n by auto
  let ?k = "ravel sizes cs" and ?N = "prod_list sizes" and ?l = "hk_labels st"
  show ?case
  proof (cases "cs ! n \<noteq> 0 \<and> bond_active bonds n cs")
    case False
    have "x = d - Suc n" using Suc.hyps(2) by simp
    from Suc.hyps(1)[OF this _ Suc.prems(2,3)] n
    obtain st' where st': "axis_scan bonds (convert_vec sizes d) d cs [Suc n..<d] st = Some (Inr st')"
      "hk_inv (E \<union> site_edges bonds sizes cs {Suc n..<d}) ?N st'" "swept (Suc ?k) (hk_labels st')"
      by auto
    have "site_edges bonds sizes cs {n..<d} = site_edges bonds sizes cs {Suc n..<d}"
      unfolding set_eq using False by (auto simp: site_edges_insert)
    moreover have "axis_scan bonds (convert_vec sizes d) d cs [n..<d] st = Some (Inr st')"
      unfolding upt using False st'(1) by (auto simp: access[OF wf cs n])
    ultimately show ?thesis using st'(2,3) by auto
  next
    case True
    let ?v = "ravel sizes (cs[n := cs ! n - 1])"
    from wf n have lsz: "n < length sizes" by (simp add: wf_input_def)
    have k: "?k < ?N" using ravel_less[OF cs] .
    have kv: "?k = ?v + prod_list (drop (Suc n) sizes)" using ravel_pred[OF cs lsz] True by simp
    have "0 < prod_list (drop (Suc n) sizes)" using valid_sizes_pos[OF cs] .
    with kv have vk: "?v < ?k" by linarith
    then have v: "?v < ?N" using k by simp
    have nb: "int ?k - int (prod_list (drop (Suc n) sizes)) = int ?v" using kv by linarith
    from Suc.prems(2) have len: "length ?l = ?N" and uf: "uf_inv E ?l"
      by (auto simp: hk_inv_def)
    have rs: "reach ?l (int ?k) (int ?k)" using swept_self[OF Suc.prems(3)] k len by simp
    from uf_inv_reach[OF uf, of ?v] v len obtain r where r: "reach ?l (int ?v) r" by auto
    have r_lt: "r < int ?k" using reach_below[OF r Suc.prems(3)] vk by simp
    let ?E1 = "insert (?k, ?v) E"
    from assign_union[OF Suc.prems(2) k rs v r, of ?E1 Primary] r_lt
    obtain st1 where st1: "assign Primary (int ?k) r st = Some (Inr st1)" "hk_labels st1 = ?l[?k := r]"
      "hk_inv ?E1 ?N st1"
      by auto
    have sw1: "swept (Suc ?k) (hk_labels st1)"
      unfolding st1(2) using Suc.prems(3) r_lt by (rule swept_primary)
    from cross_loop_ok[OF wf cs st1(3) sw1, of "Suc n"]
    obtain st' where st': "for_loop [Suc n..<d] (cross_term bonds (convert_vec sizes d) cs (int ?k)) st1
             = Some (Inr st')"
      "hk_inv (?E1 \<union> site_edges bonds sizes cs {Suc n..<d}) ?N st'" "swept (Suc ?k) (hk_labels st')"
      by blast
    have "E \<union> site_edges bonds sizes cs {n..<d} = ?E1 \<union> site_edges bonds sizes cs {Suc n..<d}"
      unfolding set_eq using True by (simp add: site_edges_insert)
    moreover have "axis_scan bonds (convert_vec sizes d) d cs [n..<d] st = Some (Inr st')"
      unfolding upt using True st1(1) st'(1) reach_find[OF r]
      by (simp add: access[OF wf cs n] nb)
    ultimately show ?thesis using st'(2,3) by auto
  qed
qed

lemma main_sweep_ok:
  assumes wf: "wf_input bonds sizes d bc"
  shows "\<exists>st'. main_sweep bonds sizes (convert_vec sizes d) d
              \<lparr>hk_labels = map int [0..<prod_list sizes], hk_trace = []\<rparr> = Some (Inr st')
           \<and> hk_inv (sweep_edges bonds sizes (prod_list sizes)) (prod_list sizes) st'"
proof -
  let ?cs = "product_lists (ranges sizes)" and ?N = "prod_list sizes"
  let ?st0 = "\<lparr>hk_labels = map int [0..<?N], hk_trace = []\<rparr>"
  let ?I = "\<lambda>k st. hk_inv (sweep_edges bonds sizes k) ?N st \<and> swept k (hk_labels st)"
  from wf have d: "length sizes = d" by (simp add: wf_input_def)
  have "\<exists>st'. for_loop ?cs (visit_site bonds (convert_vec sizes d) d) ?st0 = Some (Inr st')
           \<and> ?I (length ?cs) st'"
  proof (rule for_loop_rule[where I = ?I])
    have "reach (map int [0..<?N]) (int i) (int i)" if "i < ?N" for i
      using that by (intro reach_root) auto
    then have "\<exists>r. reach (map int [0..<?N]) (int i) r \<and> (i, nat r) \<in> eqcl {}" if "i < ?N" for i
      using that by (intro exI[of _ "int i"]) simp
    then have "uf_inv {} (map int [0..<?N])"
      by (simp add: uf_inv_def)
    moreover have "swept 0 (map int [0..<?N])" by (simp add: swept_def)
    ultimately show "?I 0 ?st0" by (simp add: hk_inv_def sweep_edges_def)
  next
    fix k s
    assume k: "k < length ?cs" and I: "?I k s"
    then have kN: "k < ?N" by (simp add: length_ranges_product)
    have cs: "list_all2 (<) (?cs ! k) sizes" using k in_ranges nth_mem by blast
    have rk: "ravel sizes (?cs ! k) = k" using ravel_nth[OF kN] .
    from axis_scan_ok[OF wf cs, of 0 "sweep_edges bonds sizes k" s] I rk
    obtain s' where s': "axis_scan bonds (convert_vec sizes d) d (?cs ! k) [0..<d] s = Some (Inr s')"
      "hk_inv (sweep_edges bonds sizes k \<union> site_edges bonds sizes (?cs ! k) {0..<d}) ?N s'"
      "swept (Suc k) (hk_labels s')"
      by auto
    have "sweep_edges bonds sizes (Suc k)
        = sweep_edges bonds sizes k \<union> site_edges bonds sizes (?cs ! k) {0..<d}"
      by (auto simp: sweep_edges_def d lessThan_Suc)
    with s' show "\<exists>s'. visit_site bonds (convert_vec sizes d) d (?cs ! k) s = Some (Inr s') \<and> ?I (Suc k) s'"
      by (simp add: visit_site_def)
  qed
  then show ?thesis by (auto simp: main_sweep_def length_ranges_product)
qed

lemma wrap_site_ok:
  assumes wf: "wf_input bonds sizes d bc" and cs: "list_all2 (<) cs sizes" and n: "n < d"
    and c0: "cs ! n = 0"
    and inv: "hk_inv E (prod_list sizes) st"
  shows "\<exists>st'. wrap_site bonds sizes (convert_vec sizes d) n cs st = Some (Inr st')
           \<and> hk_inv (E \<union> (if bond_active bonds n cs
                 then {(ravel sizes cs, ravel sizes (cs[n := sizes ! n - 1]))} else {}))
               (prod_list sizes) st'"
proof (cases "bond_active bonds n cs")
  case False
  then show ?thesis using inv by (auto simp: wrap_site_def access[OF wf cs n])
next
  case True
  let ?k = "ravel sizes cs" and ?v = "ravel sizes (cs[n := sizes ! n - 1])" and ?l = "hk_labels st"
  let ?N = "prod_list sizes" and ?S = "prod_list (drop (Suc n) sizes)"
  from wf n have lsz: "n < length sizes" by (simp add: wf_input_def)
  have pos: "0 < sizes ! n" using cs lsz by (auto simp: list_all2_conv_all_nth)
  have k: "?k < ?N" using ravel_less[OF cs] .
  have "list_all2 (<) (cs[n := sizes ! n - 1]) sizes" using valid_update[OF cs lsz] pos by simp
  then have v: "?v < ?N" by (rule ravel_less)
  have "?v = ?k + ?S * (sizes ! n - 1)" using ravel_wrap[OF cs lsz c0] .
  then have nb: "int ?k + int ?S * (int (sizes ! n) - 1) = int ?v"
    using pos by (simp add: of_nat_diff)
  from inv have len: "length ?l = ?N" and uf: "uf_inv E ?l" by (auto simp: hk_inv_def)
  from uf_inv_reach[OF uf, of ?k] k len obtain rs where rs: "reach ?l (int ?k) rs" by auto
  from uf_inv_reach[OF uf, of ?v] v len obtain rn where rn: "reach ?l (int ?v) rn" by auto
  note root = reach_is_root[OF rs]
  have rd: "py_index ?l rs = Inr rs" using root by (simp add: py_index_in_range)
  from assign_union[OF inv v rn k rs, of "insert (?k, ?v) E" Wrap]
  obtain st' where st': "assign Wrap rn rs st = Some (Inr st')" "hk_inv (insert (?k, ?v) E) ?N st'"
    by auto
  have "wrap_site bonds sizes (convert_vec sizes d) n cs st = Some (Inr st')"
    using True st'(1) reach_find[OF rs] reach_find[OF rn] rd nb
    by (simp add: wrap_site_def access[OF wf cs n])
  then show ?thesis using True st'(2) by auto
qed

lemma in_positions:
  assumes "n < length sizes" "0 < sizes ! n"
  shows "cs \<in> set (product_lists (ranges (take n sizes) @ [[0]] @ ranges (drop (n + 1) sizes)))
     \<longleftrightarrow> list_all2 (<) cs sizes \<and> cs ! n = 0"
proof -
  have eq: "ranges (take n sizes) @ [[0]] @ ranges (drop (n + 1) sizes) = (ranges sizes)[n := [0]]"
    using assms(1) by (simp add: ranges_def upd_conv_take_nth_drop take_map drop_map)
  show ?thesis unfolding eq product_lists_set
    using assms
    by (auto simp: list_all2_conv_all_nth ranges_def nth_list_update)
qed

lemma wrap_axis_ok:
  assumes wf: "wf_input bonds sizes d bc" and n: "n < d" and pos: "0 < sizes ! n"
    and inv: "hk_inv E (prod_list sizes) st"
  shows "\<exists>st'. wrap_axis bonds sizes (convert_vec sizes d) bc n st = Some (Inr st')
           \<and> hk_inv (E \<union> axis_wrap_edges bonds sizes bc n) (prod_list sizes) st'"
proof -
  from wf n have lsz: "n < length sizes" and lbc: "n < length bc" by (simp_all add: wf_input_def)
  have bcn: "py_index bc (int n) = Inr (bc ! n)" using lbc by (simp add: py_index_nat)
  show ?thesis
  proof (cases "bc ! n = CHR ''p''")
    case False
    then have "axis_wrap_edges bonds sizes bc n = {}" by (simp add: axis_wrap_edges_def)
    then show ?thesis using False inv by (simp add: wrap_axis_def bcn)
  next
    case True
    define P where "P = product_lists (ranges (take n sizes) @ [[0]] @ ranges (drop (n + 1) sizes))"
    have mem: "cs \<in> set P \<longleftrightarrow> list_all2 (<) cs sizes \<and> cs ! n = 0" for cs
      unfolding P_def by (rule in_positions[OF lsz pos])
    let ?W = "\<lambda>cs. if bond_active bonds n cs
                 then {(ravel sizes cs, ravel sizes (cs[n := sizes ! n - 1]))} else {}"
    let ?I = "\<lambda>j st. hk_inv (E \<union> (\<Union>i<j. ?W (P ! i))) (prod_list sizes) st"
    have "\<exists>st'. for_loop P (wrap_site bonds sizes (convert_vec sizes d) n) st = Some (Inr st')
             \<and> ?I (length P) st'"
    proof (rule for_loop_rule[where I = ?I])
      show "?I 0 st" using inv by simp
    next
      fix j and s :: hk_state
      assume j: "j < length P" and I: "?I j s"
      then have "P ! j \<in> set P" by simp
      then have cs: "list_all2 (<) (P ! j) sizes" "P ! j ! n = 0"
        using mem by auto
      have "E \<union> (\<Union>i<Suc j. ?W (P ! i)) = (E \<union> (\<Union>i<j. ?W (P ! i))) \<union> ?W (P ! j)"
        by (simp only: lessThan_Suc UN_insert) blast
      then show "\<exists>s'. wrap_site bonds sizes (convert_vec sizes d) n (P ! j) s = Some (Inr s') \<and> ?I (Suc j) s'"
        using wrap_site_ok[OF wf cs(1) n cs(2) I] by simp
    qed
    moreover have "(\<Union>i<length P. ?W (P ! i)) = axis_wrap_edges bonds sizes bc n"
    proof -
      have "set P = (\<lambda>i. P ! i) ` {..<length P}"
        by (auto simp: set_conv_nth)
      then have "(\<Union>cs\<in>set P. ?W cs) = (\<Union>i<length P. ?W (P ! i))"
        by (simp only: UN_simps image_image)
      then have "(\<Union>i<length P. ?W (P ! i)) = (\<Union>cs\<in>set P. ?W cs)" by simp
      also have "\<dots> = axis_wrap_edges bonds sizes bc n"
        using True by (auto simp: mem axis_wrap_edges_def split: if_splits)
      finally show ?thesis .
    qed
    ultimately show ?thesis using True unfolding wrap_axis_def P_def[symmetric] by (simp add: bcn)
  qed
qed

lemma boundary_ok:
  assumes wf: "wf_input bonds sizes d bc" and pos: "list_all (\<lambda>s. 0 < s) sizes"
    and inv: "hk_inv E (prod_list sizes) st"
  shows "\<exists>st'. for_loop [0..<d] (wrap_axis bonds sizes (convert_vec sizes d) bc) st = Some (Inr st')
           \<and> hk_inv (E \<union> (\<Union>n<d. axis_wrap_edges bonds sizes bc n)) (prod_list sizes) st'"
proof -
  let ?I = "\<lambda>n st. hk_inv (E \<union> (\<Union>m<n. axis_wrap_edges bonds sizes bc m)) (prod_list sizes) st"
  have "\<exists>st'. for_loop [0..<d] (wrap_axis bonds sizes (convert_vec sizes d) bc) st = Some (Inr st')
           \<and> ?I (length [0..<d]) st'"
  proof (rule for_loop_rule[where I = ?I])
    show "?I 0 st" using inv by simp
  next
    fix n and s :: hk_state
    assume n: "n < length [0..<d]" and I: "?I n s"
    then have nd: "n < d" by simp
    then have p: "0 < sizes ! n" using pos wf by (simp add: list_all_length wf_input_def)
    have "E \<union> (\<Union>m<Suc n. axis_wrap_edges bonds sizes bc m)
        = (E \<union> (\<Union>m<n. axis_wrap_edges bonds sizes bc m)) \<union> axis_wrap_edges bonds sizes bc n"
      by (simp only: lessThan_Suc UN_insert) blast
    then show "\<exists>s'. wrap_axis bonds sizes (convert_vec sizes d) bc ([0..<d] ! n) s = Some (Inr s') \<and> ?I (Suc n) s'"
      using wrap_axis_ok[OF wf nd p I] nd by simp
  qed
  then show ?thesis by simp
qed

lemma resolve_ok:
  assumes inv: "hk_inv E N st"
  shows "\<exists>st'. for_loop [0..<length (hk_labels st)] resolve_site st = Some (Inr st')
           \<and> length (hk_labels st') = N \<and> list_all event_ok (hk_trace st')
           \<and> (\<forall>i<N. reach (hk_labels st) (int i) (hk_labels st' ! i))
           \<and> (\<forall>x r. reach (hk_labels st) x r \<longrightarrow> reach (hk_labels st') x r)"
proof -
  let ?L = "hk_labels st"
  from inv have len: "length ?L = N" and uf: "uf_inv E ?L" by (auto simp: hk_inv_def)
  let ?I = "\<lambda>k s. length (hk_labels s) = N \<and> list_all event_ok (hk_trace s)
              \<and> (\<forall>x r. reach ?L x r \<longrightarrow> reach (hk_labels s) x r)
              \<and> (\<forall>i<k. reach ?L (int i) (hk_labels s ! i))"
  have "\<exists>st'. for_loop [0..<N] resolve_site st = Some (Inr st') \<and> ?I (length [0..<N]) st'"
  proof (rule for_loop_rule[where I = ?I])
    show "?I 0 st" using inv by (simp add: hk_inv_def)
  next
    fix k and s :: hk_state
    assume "k < length [0..<N]" and I: "?I k s"
    then have k: "k < N" by simp
    let ?l = "hk_labels s"
    from uf_inv_reach[OF uf, of k] k len obtain r where r0: "reach ?L (int k) r" by auto
    then have r: "reach ?l (int k) r" using I by blast
    have all: "\<exists>r. reach ?l (int i) r" if "i < length ?l" for i
      using uf_inv_reach[OF uf, of i] that I len by auto
    let ?e = "\<lparr>ev_kind = Resolve, ev_before = ?l, ev_index = int k, ev_value = r\<rparr>"
    let ?s = "\<lparr>hk_labels = ?l[k := r], hk_trace = hk_trace s @ [?e]\<rparr>"
    have "event_ok ?e"
      using all_reach_forest[OF all] reach_imp_is_root[OF r] reach_find[OF r] reach_dom[OF r]
      by (simp add: event_ok_def)
    moreover have "resolve_site k s = Some (Inr ?s)"
      using reach_find[OF r] k I by (simp add: resolve_site_def assign_def py_store_in_range)
    moreover have "reach (?l[k := r]) x r'" if "reach ?L x r'" for x r'
      using reach_compress[OF _ r, of x r'] that I by simp
    moreover have "reach ?L (int i) (?l[k := r] ! i)" if "i < Suc k" for i
      using that I r0 k by (cases "i = k") (auto simp: nth_list_update)
    ultimately show "\<exists>s'. resolve_site ([0..<N] ! k) s = Some (Inr s') \<and> ?I (Suc k) s'"
      using I k by simp
  qed
  then show ?thesis using len by auto
qed

lemma sweep_edges_all: "sweep_edges bonds sizes (prod_list sizes) = interior_edges bonds sizes"
proof -
  let ?cs = "product_lists (ranges sizes)"
  have "set ?cs = (\<lambda>j. ?cs ! j) ` {..<prod_list sizes}"
    by (auto simp: set_conv_nth length_ranges_product)
  then have "(\<Union>cs\<in>set ?cs. site_edges bonds sizes cs {0..<length sizes})
      = sweep_edges bonds sizes (prod_list sizes)"
    unfolding sweep_edges_def by (simp only: UN_simps image_image)
  moreover have "(\<Union>cs\<in>set ?cs. site_edges bonds sizes cs {0..<length sizes}) = interior_edges bonds sizes"
  proof -
    have mem: "\<And>cs. cs \<in> set ?cs \<longleftrightarrow> list_all2 (<) cs sizes" by (rule in_ranges)
    show ?thesis
    proof (rule set_eqI, rule iffI)
      fix e
      assume "e \<in> (\<Union>cs\<in>set ?cs. site_edges bonds sizes cs {0..<length sizes})"
      then obtain cs n where "cs \<in> set ?cs" "n < length sizes" "cs ! n \<noteq> 0" "bond_active bonds n cs"
        "e = (ravel sizes cs, ravel sizes (cs[n := cs ! n - 1]))"
        by (auto simp: site_edges_def)
      then show "e \<in> interior_edges bonds sizes"
        unfolding interior_edges_def mem by blast
    next
      fix e
      assume "e \<in> interior_edges bonds sizes"
      then obtain cs n where *: "list_all2 (<) cs sizes" "n < length sizes" "cs ! n \<noteq> 0"
        "bond_active bonds n cs" "e = (ravel sizes cs, ravel sizes (cs[n := cs ! n - 1]))"
        unfolding interior_edges_def by blast
      then have "e \<in> site_edges bonds sizes cs {0..<length sizes}"
        unfolding site_edges_def by auto
      moreover have "cs \<in> set ?cs" using * mem by simp
      ultimately show "e \<in> (\<Union>cs\<in>set ?cs. site_edges bonds sizes cs {0..<length sizes})"
        by blast
    qed
  qed
  ultimately show ?thesis by simp
qed

lemma wrap_edges_all: "(\<Union>n<length sizes. axis_wrap_edges bonds sizes bc n) = wrap_edges bonds sizes bc"
  by (auto simp: axis_wrap_edges_def wrap_edges_def)

lemma uf_inv_edge_find:
  assumes "uf_inv E l" "(x, y) \<in> (E \<union> E\<inverse>)\<^sup>*" "x < length l"
  shows "y < length l \<and> find (int x) l = find (int y) l"
  using assms(2,3)
proof (induction rule: rtrancl_induct)
  case base
  then show ?case by simp
next
  case (step y z)
  from step(2) assms(1) have "z < length l \<and> find (int y) l = find (int z) l"
    by (auto simp: uf_inv_def)
  with step show ?case by simp
qed

lemma uf_inv_same:
  assumes uf: "uf_inv E l" and i: "i < length l" "reach l (int i) ri"
    and j: "j < length l" "reach l (int j) rj"
  shows "ri = rj \<longleftrightarrow> (i, j) \<in> eqcl E"
proof
  assume "ri = rj"
  moreover have "(i, nat ri) \<in> eqcl E" using uf_inv_reach[OF uf i(1)] i(2) reach_unique by blast
  moreover have "(j, nat rj) \<in> eqcl E" using uf_inv_reach[OF uf j(1)] j(2) reach_unique by blast
  ultimately show "(i, j) \<in> eqcl E" using eqcl_sym eqcl_trans by metis
next
  assume "(i, j) \<in> eqcl E"
  then have "find (int i) l = find (int j) l"
    using uf_inv_edge_find[OF uf _ i(1)] by (simp add: eqcl_def)
  then show "ri = rj" using reach_find[OF i(2)] reach_find[OF j(2)] by simp
qed

lemma hk_run_ok:
  assumes wf: "wf_input bonds sizes d bc" and pos: "list_all (\<lambda>s. 0 < s) sizes"
  shows "\<exists>st. hk_run bonds sizes d bc = Some (Inr st)
           \<and> length (hk_labels st) = prod_list sizes
           \<and> list_all event_ok (hk_trace st)
           \<and> forest (hk_labels st)
           \<and> (\<forall>i<prod_list sizes. is_root (hk_labels st) (hk_labels st ! i)
                  \<and> (i, nat (hk_labels st ! i)) \<in> bond_connected bonds sizes bc)
           \<and> (\<forall>i<prod_list sizes. \<forall>j<prod_list sizes.
                  hk_labels st ! i = hk_labels st ! j \<longleftrightarrow> (i, j) \<in> bond_connected bonds sizes bc)"
proof -
  let ?N = "prod_list sizes" and ?cv = "convert_vec sizes d"
  let ?E = "interior_edges bonds sizes \<union> wrap_edges bonds sizes bc"
  from wf have d: "length sizes = d" by (simp add: wf_input_def)
  from main_sweep_ok[OF wf] obtain st1 where
    st1: "main_sweep bonds sizes ?cv d \<lparr>hk_labels = map int [0..<?N], hk_trace = []\<rparr> = Some (Inr st1)"
      "hk_inv (interior_edges bonds sizes) ?N st1"
    by (auto simp: sweep_edges_all)
  from boundary_ok[OF wf pos st1(2)] obtain st2 where
    st2: "for_loop [0..<d] (wrap_axis bonds sizes ?cv bc) st1 = Some (Inr st2)" "hk_inv ?E ?N st2"
    using wrap_edges_all[where sizes = sizes and bonds = bonds and bc = bc] d by auto
  from resolve_ok[OF st2(2)] obtain st3 where
    st3: "for_loop [0..<length (hk_labels st2)] resolve_site st2 = Some (Inr st3)"
      "length (hk_labels st3) = ?N" "list_all event_ok (hk_trace st3)"
      "\<And>i. i < ?N \<Longrightarrow> reach (hk_labels st2) (int i) (hk_labels st3 ! i)"
      "\<And>x r. reach (hk_labels st2) x r \<Longrightarrow> reach (hk_labels st3) x r"
    by blast
  from st2(2) have len2: "length (hk_labels st2) = ?N" and uf: "uf_inv ?E (hk_labels st2)"
    by (auto simp: hk_inv_def)
  have run: "hk_run bonds sizes d bc = Some (Inr st3)"
    using st1(1) st2(1) st3(1) by (simp add: hk_run_def Let_def)
  have "\<exists>r. reach (hk_labels st3) (int i) r" if "i < length (hk_labels st3)" for i
    using st3(4)[of i] st3(5) st3(2) that by auto
  then have forest: "forest (hk_labels st3)" by (rule all_reach_forest)
  have root: "is_root (hk_labels st3) (hk_labels st3 ! i) \<and> (i, nat (hk_labels st3 ! i)) \<in> bond_connected bonds sizes bc"
    if "i < ?N" for i
  proof -
    let ?r = "hk_labels st3 ! i"
    note r = st3(4)[OF that]
    note rr = reach_is_root[OF r]
    then have "reach (hk_labels st2) ?r ?r" by (auto intro: reach_root)
    then have "reach (hk_labels st3) ?r ?r" by (rule st3(5))
    then have "is_root (hk_labels st3) ?r" by (rule reach_imp_is_root)
    moreover have "(i, nat ?r) \<in> eqcl ?E"
    proof -
      from uf_inv_reach[OF uf, of i] that len2 obtain r' where
        r': "reach (hk_labels st2) (int i) r'" "(i, nat r') \<in> eqcl ?E" by auto
      from reach_unique[OF r r'(1)] r'(2) show ?thesis by simp
    qed
    ultimately show ?thesis by (simp add: bond_connected_def)
  qed
  have same: "hk_labels st3 ! i = hk_labels st3 ! j \<longleftrightarrow> (i, j) \<in> bond_connected bonds sizes bc"
    if "i < ?N" "j < ?N" for i j
    unfolding bond_connected_def
    using uf_inv_same[OF uf _ st3(4)[OF that(1)] _ st3(4)[OF that(2)]] that len2 by simp
  show ?thesis using run st3(2,3) forest root same by blast
qed

lemma assign_length: "assign k i v st = Some (Inr st') \<Longrightarrow> length (hk_labels st') = length (hk_labels st)"
  by (auto simp: assign_def py_store_def split: if_splits)

lemma cross_term_length:
  "cross_term bonds cv cs idx m st = Some (Inr st') \<Longrightarrow> length (hk_labels st') = length (hk_labels st)"
  by (auto simp: cross_term_def rbind_eq_Inr Let_def split: if_splits dest: assign_length)

lemma for_loop_length:
  assumes "\<And>x s s'. body x s = Some (Inr s') \<Longrightarrow> length (hk_labels s') = length (hk_labels s)"
  shows "for_loop xs body st = Some (Inr st') \<Longrightarrow> length (hk_labels st') = length (hk_labels st)"
  using for_loop_preserve[of xs body "\<lambda>s. length (hk_labels s) = length (hk_labels st)" st st'] assms
  by simp

lemma axis_scan_length:
  "axis_scan bonds cv d cs ns st = Some (Inr st') \<Longrightarrow> length (hk_labels st') = length (hk_labels st)"
proof (induction ns)
  case Nil
  then show ?case by simp
next
  case (Cons n ns)
  show ?case
  proof (cases "\<exists>v b. py_index cs (int n) = Inr v \<and> v \<noteq> 0 \<and> py_index bonds (int n) = Inr b
                  \<and> (\<exists>t. nd_index b cs = Inr t \<and> truthy t)")
    case True
    with Cons.prems obtain k r st1 where
      1: "assign Primary (int k) r st = Some (Inr st1)"
      and 2: "for_loop [n + 1..<d] (cross_term bonds cv cs (int k)) st1 = Some (Inr st')"
      by (auto simp: rbind_eq_Inr Let_def)
    have "\<And>x s s'. cross_term bonds cv cs (int k) x s = Some (Inr s')
        \<Longrightarrow> length (hk_labels s') = length (hk_labels s)"
      by (rule cross_term_length)
    from for_loop_length[where body = "cross_term bonds cv cs (int k)", OF this 2]
    show ?thesis using assign_length[OF 1] by simp
  next
    case False
    with Cons.prems have "axis_scan bonds cv d cs ns st = Some (Inr st')"
      by (auto simp: rbind_eq_Inr split: if_splits)
    then show ?thesis by (rule Cons.IH)
  qed
qed

lemma wrap_site_length:
  "wrap_site bonds sizes cv n cs st = Some (Inr st') \<Longrightarrow> length (hk_labels st') = length (hk_labels st)"
  by (auto simp: wrap_site_def rbind_eq_Inr Let_def split: if_splits dest: assign_length)

lemma wrap_axis_length:
  "wrap_axis bonds sizes cv bc n st = Some (Inr st') \<Longrightarrow> length (hk_labels st') = length (hk_labels st)"
proof -
  assume a: "wrap_axis bonds sizes cv bc n st = Some (Inr st')"
  show ?thesis
  proof (cases "py_index bc (int n) = Inr CHR ''p''")
    case True
    with a have "for_loop (product_lists (ranges (take n sizes) @ [[0]] @ ranges (drop (n + 1) sizes)))
           (wrap_site bonds sizes cv n) st = Some (Inr st')"
      by (simp add: wrap_axis_def)
    moreover have "\<And>x s s'. wrap_site bonds sizes cv n x s = Some (Inr s')
        \<Longrightarrow> length (hk_labels s') = length (hk_labels s)"
      by (rule wrap_site_length)
    ultimately show ?thesis
      by (rule for_loop_length[where body = "wrap_site bonds sizes cv n", rotated])
  next
    case False
    with a show ?thesis by (auto simp: wrap_axis_def rbind_eq_Inr split: if_splits)
  qed
qed

lemma resolve_site_length:
  "resolve_site idx st = Some (Inr st') \<Longrightarrow> length (hk_labels st') = length (hk_labels st)"
  by (auto simp: resolve_site_def rbind_eq_Inr dest: assign_length)

lemma hk_run_length:
  assumes "hk_run bonds sizes d bc = Some (Inr st)"
  shows "length (hk_labels st) = prod_list sizes"
proof -
  from assms obtain st1 st2 where
    1: "main_sweep bonds sizes (convert_vec sizes d) d \<lparr>hk_labels = map int [0..<prod_list sizes], hk_trace = []\<rparr>
          = Some (Inr st1)"
    and 2: "for_loop [0..<d] (wrap_axis bonds sizes (convert_vec sizes d) bc) st1 = Some (Inr st2)"
    and 3: "for_loop [0..<length (hk_labels st2)] resolve_site st2 = Some (Inr st)"
    by (auto simp: hk_run_def Let_def rbind_eq_Inr)
  have "\<And>x s s'. visit_site bonds (convert_vec sizes d) d x s = Some (Inr s')
        \<Longrightarrow> length (hk_labels s') = length (hk_labels s)"
    unfolding visit_site_def by (rule axis_scan_length)
  from for_loop_length[where body = "visit_site bonds (convert_vec sizes d) d",
        OF this 1[unfolded main_sweep_def]]
  have l1: "length (hk_labels st1) = prod_list sizes" by simp
  have "\<And>x s s'. wrap_axis bonds sizes (convert_vec sizes d) bc x s = Some (Inr s')
        \<Longrightarrow> length (hk_labels s') = length (hk_labels s)"
    by (rule wrap_axis_length)
  from for_loop_length[where body = "wrap_axis bonds sizes (convert_vec sizes d) bc", OF this 2]
  have l2: "length (hk_labels st2) = prod_list sizes" using l1 by simp
  have "\<And>x s s'. resolve_site x s = Some (Inr s') \<Longrightarrow> length (hk_labels s') = length (hk_labels s)"
    by (rule resolve_site_length)
  from for_loop_length[where body = resolve_site, OF this 3]
  show ?thesis using l2 by simp
qed

section \<open>Relabelling, traces, bond extraction, gap statistics and analysis\<close>

lemma filter_less_mono:
  fixes a b :: int
  assumes "a \<in> set xs" "a < b"
  shows "length (filter (\<lambda>u. u < a) xs) < length (filter (\<lambda>u. u < b) xs)"
proof -
  have "filter (\<lambda>u. u < a) xs = filter (\<lambda>u. u < a) (filter (\<lambda>u. u < b) xs)"
    using assms(2) by (auto intro: filter_cong)
  moreover have "length (filter (\<lambda>u. u < a) (filter (\<lambda>u. u < b) xs)) < length (filter (\<lambda>u. u < b) xs)"
    using assms by (intro length_filter_less[of a]) auto
  ultimately show ?thesis by simp
qed

lemma unique_inverse_length [simp]: "length (unique_inverse ls) = length ls"
  by (simp add: unique_inverse_def)

lemma unique_inverse_eq:
  assumes "i < length ls" "j < length ls"
  shows "unique_inverse ls ! i = unique_inverse ls ! j \<longleftrightarrow> ls ! i = ls ! j"
proof -
  let ?rank = "\<lambda>l. length (filter (\<lambda>u. u < l) (remdups ls))"
  have mem: "ls ! i \<in> set (remdups ls)" "ls ! j \<in> set (remdups ls)" using assms by auto
  have "?rank (ls ! i) \<noteq> ?rank (ls ! j)" if "ls ! i \<noteq> ls ! j"
  proof (cases "ls ! i < ls ! j")
    case True
    then show ?thesis using filter_less_mono[OF mem(1), of "ls ! j"] by simp
  next
    case False
    with that have "ls ! j < ls ! i" by simp
    then show ?thesis using filter_less_mono[OF mem(2), of "ls ! i"] by simp
  qed
  then show ?thesis using assms by (auto simp: unique_inverse_def)
qed

lemma hk_result:
  "hoshen_kopelman_nd bonds sizes d bc reduce = Some (Inr ls) \<longleftrightarrow>
     (\<exists>st. hk_run bonds sizes d bc = Some (Inr st)
        \<and> ls = (if reduce then unique_inverse (hk_labels st) else hk_labels st))"
  by (auto simp: hoshen_kopelman_nd_def rbind_eq_Inr)

lemma prod_list_zero: "\<not> list_all (\<lambda>s. 0 < s) sizes \<Longrightarrow> prod_list sizes = (0::nat)"
  by (induction sizes) auto

lemma forest_find:
  assumes "forest l" "0 \<le> x" "x < int (length l)"
  shows "\<exists>r. reach l x r"
proof -
  have "parent_rel l \<subseteq> (\<lambda>i. (int i, l ! i)) ` {..<length l}"
  proof
    fix e
    assume "e \<in> parent_rel l"
    then obtain y where y: "e = (y, l ! nat y)" "0 \<le> y" "y < int (length l)"
      by (auto simp: parent_rel_def)
    then have "e = (int (nat y), l ! nat y)" "nat y < length l" by auto
    then show "e \<in> (\<lambda>i. (int i, l ! i)) ` {..<length l}" by blast
  qed
  moreover have "finite ((\<lambda>i. (int i, l ! i)) ` {..<length l})" by simp
  ultimately have "finite (parent_rel l)" by (rule finite_subset)
  moreover have "acyclic (parent_rel l)" using assms(1) by (simp add: forest_def)
  ultimately have wf: "wf ((parent_rel l)\<inverse>)" by (rule finite_acyclic_wf_converse)
  from wf assms(2,3) show ?thesis
  proof (induction x rule: wf_induct_rule)
    case (less x)
    show ?case
    proof (cases "l ! nat x = x")
      case True
      then show ?thesis using less.prems by (auto intro: reach_root)
    next
      case False
      let ?y = "l ! nat x"
      have "nat x < length l" using less.prems by auto
      then have "?y \<in> set l" by simp
      then have y: "0 \<le> ?y" "?y < int (length l)" using assms(1) by (auto simp: forest_def)
      have "(?y, x) \<in> (parent_rel l)\<inverse>" using False less.prems by (auto simp: parent_rel_def)
      from less.IH[OF this y] obtain r where "reach l ?y r" by blast
      then have "reach l x r" using False less.prems by - (rule reach_step, auto)
      then show ?thesis by blast
    qed
  qed
qed

lemma forest_finds_return: "forest l \<Longrightarrow> finds_return l"
proof -
  assume f: "forest l"
  have "\<exists>r. find x l = Some (Inr r) \<and> is_root l r" if "0 \<le> x" "x < int (length l)" for x
  proof -
    from forest_find[OF f that] obtain r where "reach l x r" by blast
    then show ?thesis using reach_find reach_imp_is_root by blast
  qed
  then show ?thesis by (simp add: finds_return_def)
qed

lemma event_ok_finds: "list_all event_ok tr \<Longrightarrow> list_all (\<lambda>e. event_ok e \<and> finds_return (ev_before e)) tr"
  by (auto simp: list_all_iff event_ok_def intro: forest_finds_return)

lemma find_empty: "find x [] = Some (Inl IndexError)"
  by (subst find.simps) (simp add: py_index_def)

lemma wrap_site_empty:
  assumes "hk_labels st = []"
  shows "wrap_site bonds sizes cv n cs st = Some (Inr st) \<or> (\<exists>e. wrap_site bonds sizes cv n cs st = Some (Inl e))"
  using assms
  by (auto simp: wrap_site_def rbind_def lift_def find_empty Let_def split: sum.splits option.splits)

lemma for_loop_stuck:
  assumes "\<And>x. x \<in> set xs \<Longrightarrow> body x s = Some (Inr s) \<or> (\<exists>e. body x s = Some (Inl e))"
  shows "for_loop xs body s = Some (Inr s) \<or> (\<exists>e. for_loop xs body s = Some (Inl e))"
  using assms
proof (induction xs)
  case Nil
  then show ?case by simp
next
  case (Cons x xs)
  from Cons.prems[of x] consider "body x s = Some (Inr s)" | e where "body x s = Some (Inl e)" by auto
  then show ?case
  proof cases
    case 1
    then show ?thesis using Cons by (simp add: rbind_def)
  next
    case 2
    then show ?thesis by (simp add: rbind_def)
  qed
qed

lemma wrap_axis_empty:
  assumes "hk_labels st = []"
  shows "wrap_axis bonds sizes cv bc n st = Some (Inr st) \<or> (\<exists>e. wrap_axis bonds sizes cv bc n st = Some (Inl e))"
proof (cases "py_index bc (int n)")
  case (Inl e)
  then show ?thesis by (simp add: wrap_axis_def rbind_def lift_def)
next
  case (Inr ch)
  show ?thesis
  proof (cases "ch = CHR ''p''")
    case True
    with Inr have "wrap_axis bonds sizes cv bc n st =
        for_loop (product_lists (ranges (take n sizes) @ [[0]] @ ranges (drop (n + 1) sizes)))
          (wrap_site bonds sizes cv n) st"
      by (simp add: wrap_axis_def)
    then show ?thesis using for_loop_stuck[of _ "wrap_site bonds sizes cv n" st] wrap_site_empty[OF assms]
      by metis
  next
    case False
    with Inr show ?thesis by (simp add: wrap_axis_def)
  qed
qed

lemma hk_run_empty:
  assumes "prod_list sizes = 0"
  shows "hk_run bonds sizes d bc = Some (Inr \<lparr>hk_labels = [], hk_trace = []\<rparr>)
     \<or> (\<exists>e. hk_run bonds sizes d bc = Some (Inl e))"
proof -
  let ?st = "\<lparr>hk_labels = [], hk_trace = []\<rparr>"
  have "product_lists (ranges sizes) = []"
    using length_ranges_product[of sizes] assms by simp
  then have 1: "main_sweep bonds sizes (convert_vec sizes d) d ?st = Some (Inr ?st)"
    by (simp add: main_sweep_def)
  have "for_loop [0..<d] (wrap_axis bonds sizes (convert_vec sizes d) bc) ?st = Some (Inr ?st)
      \<or> (\<exists>e. for_loop [0..<d] (wrap_axis bonds sizes (convert_vec sizes d) bc) ?st = Some (Inl e))"
    by (rule for_loop_stuck) (simp add: wrap_axis_empty)
  then show ?thesis using 1 assms by (auto simp: hk_run_def Let_def rbind_def)
qed

lemma interior_edge_1d:
  assumes "shape b = [N]" "length (data b) = N" "Suc i < N" "truthy (data b ! Suc i)"
  shows "(Suc i, i) \<in> interior_edges [b] [N]"
proof -
  have "bond_active [b] 0 [Suc i]" using assms by (simp add: bond_active_def nd_index_def)
  then have "(ravel [N] [Suc i], ravel [N] ([Suc i][0 := [Suc i] ! 0 - 1])) \<in> interior_edges [b] [N]"
    unfolding interior_edges_def using assms(3) by (intro CollectI exI[of _ "[Suc i]"] exI[of _ 0]) simp
  then show ?thesis by simp
qed

lemma chain_connected:
  assumes "shape b = [N]" "length (data b) = N" "list_all truthy (data b)"
  shows "i < N \<Longrightarrow> (i, 0) \<in> bond_connected [b] [N] bc"
proof (induction i)
  case 0
  then show ?case by (simp add: bond_connected_def)
next
  case (Suc i)
  then have "truthy (data b ! Suc i)" using assms by (simp add: list_all_length)
  from interior_edge_1d[OF assms(1,2) Suc.prems this]
  have "(Suc i, i) \<in> bond_connected [b] [N] bc"
    unfolding bond_connected_def by (intro eqcl_edge) simp
  moreover have "(i, 0) \<in> bond_connected [b] [N] bc" using Suc by simp
  ultimately show ?case unfolding bond_connected_def by (rule eqcl_trans)
qed

lemma hk_labels_only:
  "hoshen_kopelman_nd bonds sizes d bc False = map_option (map_sum id hk_labels) (hk_run bonds sizes d bc)"
  by (simp add: hoshen_kopelman_nd_def rbind_def split: option.splits sum.splits)

lemma assign_trace:
  "assign k i v st = Some (Inr st') \<Longrightarrow>
     hk_trace st' = hk_trace st @ [\<lparr>ev_kind = k, ev_before = hk_labels st, ev_index = i, ev_value = v\<rparr>]"
  by (auto simp: assign_def split: sum.splits)

lemma cross_term_trace:
  assumes "cross_term bonds cv cs idx m st = Some (Inr st')"
  shows "\<exists>evs. hk_trace st' = hk_trace st @ evs \<and> list_all (\<lambda>e. ev_kind e = Cross) evs"
proof (cases "st' = st")
  case True
  then show ?thesis by simp
next
  case False
  with assms obtain a b where "assign Cross a b st = Some (Inr st')"
    by (auto simp: cross_term_def rbind_eq_Inr Let_def split: if_splits)
  from assign_trace[OF this] show ?thesis by simp
qed

lemma cross_loop_trace:
  assumes "for_loop ms (cross_term bonds cv cs idx) st = Some (Inr st')"
  shows "\<exists>evs. hk_trace st' = hk_trace st @ evs \<and> list_all (\<lambda>e. ev_kind e = Cross) evs"
proof -
  let ?P = "\<lambda>s. \<exists>evs. hk_trace s = hk_trace st @ evs \<and> list_all (\<lambda>e. ev_kind e = Cross) evs"
  have "?P s'" if "cross_term bonds cv cs idx m s = Some (Inr s')" "?P s" for m s s'
  proof -
    from that(2) obtain evs where 1: "hk_trace s = hk_trace st @ evs" "list_all (\<lambda>e. ev_kind e = Cross) evs"
      by blast
    from cross_term_trace[OF that(1)] obtain evs' where
      2: "hk_trace s' = hk_trace s @ evs'" "list_all (\<lambda>e. ev_kind e = Cross) evs'" by blast
    have "hk_trace s' = hk_trace st @ (evs @ evs')" using 1 2 by simp
    moreover have "list_all (\<lambda>e. ev_kind e = Cross) (evs @ evs')" using 1 2 by simp
    ultimately show ?thesis by blast
  qed
  then have "\<And>x s s'. x \<in> set ms \<Longrightarrow> cross_term bonds cv cs idx x s = Some (Inr s') \<Longrightarrow> ?P s \<Longrightarrow> ?P s'"
    by blast
  from for_loop_preserve[where P = ?P and body = "cross_term bonds cv cs idx", OF this assms]
  show ?thesis by simp
qed

lemma primary_then_cross_trace:
  assumes "primary_then_cross bonds cv d cs n st = Some (Inr st')"
  shows "\<exists>p evs. hk_trace st' = hk_trace st @ p # evs \<and> ev_kind p = Primary
           \<and> list_all (\<lambda>e. ev_kind e = Cross) evs"
proof -
  from assms obtain k r st1 where
    1: "assign Primary (int k) r st = Some (Inr st1)"
    and 2: "for_loop [n + 1..<d] (cross_term bonds cv cs (int k)) st1 = Some (Inr st')"
    by (auto simp: primary_then_cross_def rbind_eq_Inr Let_def)
  from cross_loop_trace[OF 2] obtain evs where
    "hk_trace st' = hk_trace st1 @ evs" "list_all (\<lambda>e. ev_kind e = Cross) evs" by blast
  then show ?thesis using assign_trace[OF 1] by simp
qed

lemma axis_scan_first_active:
  assumes wf: "wf_input bonds sizes d bc" and cs: "list_all2 (<) cs sizes"
  shows "\<forall>n\<in>set ns. n < d \<Longrightarrow>
     axis_scan bonds (convert_vec sizes d) d cs ns st =
       (case List.find (\<lambda>n. cs ! n \<noteq> 0 \<and> bond_active bonds n cs) ns of
          None \<Rightarrow> Some (Inr st)
        | Some n \<Rightarrow> primary_then_cross bonds (convert_vec sizes d) d cs n st)"
proof (induction ns)
  case Nil
  then show ?case by simp
next
  case (Cons n ns)
  then have n: "n < d" by simp
  show ?case
  proof (cases "cs ! n \<noteq> 0 \<and> bond_active bonds n cs")
    case True
    then show ?thesis
      by (simp add: access[OF wf cs n] primary_then_cross_def)
  next
    case False
    then show ?thesis using Cons by (auto simp: access[OF wf cs n])
  qed
qed

lemma ebind_Inr [simp]: "ebind (Inr v) f = f v"
  by (simp add: ebind_def)

lemma ebind_eq_Inr: "ebind m f = Inr y \<longleftrightarrow> (\<exists>v. m = Inr v \<and> f v = Inr y)"
  by (auto simp: ebind_def split: sum.splits)

lemma collect_map_Inr:
  "(\<And>x. x \<in> set xs \<Longrightarrow> f x = Inr (g x)) \<Longrightarrow> collect (map f xs) = Inr (map g xs)"
  by (induction xs) auto

lemma ranges_nth_ravel:
  assumes "list_all2 (<) cs sh"
  shows "product_lists (ranges sh) ! ravel sh cs = cs"
proof -
  from assms have "cs \<in> set (product_lists (ranges sh))" by (simp add: in_ranges)
  then obtain j where j: "j < prod_list sh" "product_lists (ranges sh) ! j = cs"
    by (auto simp: in_set_conv_nth length_ranges_product)
  with ravel_nth[OF j(1)] show ?thesis by simp
qed

lemma roll_mod:
  assumes "c < s"
  shows "(c + s - 1) mod s = (if c = 0 then s - 1 else c - (1::nat))"
  using assms by (cases c) auto

lemma sum_list_incr:
  fixes f :: "rat list"
  shows "k < length f \<Longrightarrow> sum_list (f[k := f ! k + 1]) = sum_list f + 1"
proof (induction f arbitrary: k)
  case Nil
  then show ?case by simp
next
  case (Cons x f)
  then show ?case by (cases k) auto
qed

lemma increment_ok:
  assumes "0 \<le> g" "g < int (length f)"
  shows "increment f g = Inr (f[nat g := f ! nat g + 1])"
  using assms by (simp add: increment_def py_index_def py_store_def)

lemma repeats_count:
  "finite K \<Longrightarrow> repeats bad K xs + card (K \<union> set (good bad xs)) = length (good bad xs) + card K"
proof (induction xs arbitrary: K)
  case Nil
  then show ?case by (simp add: good_def)
next
  case (Cons x xs)
  show ?case
  proof (cases "Some x \<noteq> bad")
    case False
    then show ?thesis using Cons by (simp add: good_def)
  next
    case True
    have ih: "repeats bad (insert x K) xs + card (insert x K \<union> set (good bad xs))
        = length (good bad xs) + card (insert x K)"
      using Cons.IH[of "insert x K"] Cons.prems by simp
    have u: "K \<union> set (good bad (x # xs)) = insert x K \<union> set (good bad xs)"
      using True by (auto simp: good_def)
    show ?thesis
    proof (cases "x \<in> K")
      case True
      then have "insert x K = K" by auto
      with ih u \<open>Some x \<noteq> bad\<close> True show ?thesis by (simp add: good_def)
    next
      case False
      then have "card (insert x K) = Suc (card K)" using Cons.prems by simp
      with ih u \<open>Some x \<noteq> bad\<close> False show ?thesis by (simp add: good_def)
    qed
  qed
qed

lemma repeats_empty: "repeats bad {} xs = length (good bad xs) - length (remdups (good bad xs))"
  using repeats_count[of "{}" bad xs] by (simp add: length_remdups_card_conv)

lemma scan_entry_step:
  assumes inv: "seen_inv n i (f, fs, ls)" and i: "i < n"
  shows "\<exists>f' fs' ls'. scan_entry bad (i, lab) (f, fs, ls) = Inr (f', fs', ls')
           \<and> seen_inv n (Suc i) (f', fs', ls')
           \<and> sum_list f' = sum_list f
                + (if Some lab \<noteq> bad \<and> lab \<in> fst ` set ls then 1 else 0)
           \<and> fst ` set ls' = fst ` set ls \<union> (if Some lab \<noteq> bad then {lab} else {})"
proof (cases "Some lab \<noteq> bad")
  case False
  then have "scan_entry bad (i, lab) (f, fs, ls) = Inr (f, fs, ls)" by simp
  moreover have "seen_inv n (Suc i) (f, fs, ls)"
    using inv by (auto simp: seen_inv_def less_Suc_eq)
  ultimately show ?thesis using False by simp
next
  case True
  from inv have len: "length f = n" and dist: "distinct (map fst ls)"
    and old: "\<And>l b. map_of ls l = Some b \<Longrightarrow> b < i \<and> (\<exists>a. map_of fs l = Some a \<and> a \<le> b)"
    by (auto simp: seen_inv_def)
  show ?thesis
  proof (cases "map_of ls lab")
    case None
    then have nk: "lab \<notin> fst ` set ls" by (simp add: map_of_eq_None_iff)
    let ?fs = "AList.update lab i fs" and ?ls = "AList.update lab i ls"
    have r: "scan_entry bad (i, lab) (f, fs, ls) = Inr (f, ?fs, ?ls)" using True None by simp
    have "seen_inv n (Suc i) (f, ?fs, ?ls)"
      unfolding seen_inv_def using len old dist
      by (auto simp: update_conv' distinct_update less_Suc_eq split: if_splits)
    moreover have "fst ` set ?ls = fst ` set ls \<union> {lab}" by (auto simp: dom_update)
    ultimately show ?thesis using r True nk by simp
  next
    case (Some j)
    then have "(lab, j) \<in> set ls" by (rule map_of_SomeD)
    then have k: "lab \<in> fst ` set ls" by force
    from old[OF Some] have j: "j < i" by simp
    let ?f = "f[nat (int i - int j) := f ! nat (int i - int j) + 1]"
    let ?ls = "AList.update lab i ls"
    have g: "0 \<le> int i - int j" "int i - int j < int (length f)" using j i len by auto
    have r: "scan_entry bad (i, lab) (f, fs, ls) = Inr (?f, fs, ?ls)"
      using True Some increment_ok[OF g] by simp
    have "seen_inv n (Suc i) (?f, fs, ?ls)"
      unfolding seen_inv_def using len old old[OF Some] j dist
      by (auto simp: update_conv' distinct_update less_Suc_eq split: if_splits)
    moreover have "sum_list ?f = sum_list f + 1" using g by (intro sum_list_incr) auto
    moreover have "fst ` set ?ls = fst ` set ls \<union> {lab}" by (auto simp: dom_update)
    ultimately show ?thesis using r True k by simp
  qed
qed

lemma scan_line_ok:
  "seen_inv n i (f, fs, ls) \<Longrightarrow> i + length xs \<le> n \<Longrightarrow>
     \<exists>f' fs' ls'. efor (enumerate i xs) (scan_entry bad) (f, fs, ls) = Inr (f', fs', ls')
        \<and> seen_inv n (i + length xs) (f', fs', ls')
        \<and> sum_list f' = sum_list f + of_nat (repeats bad (fst ` set ls) xs)
        \<and> fst ` set ls' = fst ` set ls \<union> set (good bad xs)"
proof (induction xs arbitrary: i f fs ls)
  case Nil
  then show ?case by (simp add: good_def)
next
  case (Cons x xs)
  then have i: "i < n" by simp
  from scan_entry_step[OF Cons.prems(1) i, of bad x] obtain f1 fs1 ls1 where
    1: "scan_entry bad (i, x) (f, fs, ls) = Inr (f1, fs1, ls1)" "seen_inv n (Suc i) (f1, fs1, ls1)"
      "sum_list f1 = sum_list f + (if Some x \<noteq> bad \<and> x \<in> fst ` set ls then 1 else 0)"
      "fst ` set ls1 = fst ` set ls \<union> (if Some x \<noteq> bad then {x} else {})"
    by blast
  have "Suc i + length xs \<le> n" using Cons.prems(2) by simp
  from Cons.IH[OF 1(2) this] obtain f' fs' ls' where
    2: "efor (enumerate (Suc i) xs) (scan_entry bad) (f1, fs1, ls1) = Inr (f', fs', ls')"
      "seen_inv n (Suc i + length xs) (f', fs', ls')"
      "sum_list f' = sum_list f1 + of_nat (repeats bad (fst ` set ls1) xs)"
      "fst ` set ls' = fst ` set ls1 \<union> set (good bad xs)"
    by blast
  have "efor (enumerate i (x # xs)) (scan_entry bad) (f, fs, ls) = Inr (f', fs', ls')"
    using 1(1) 2(1) by simp
  moreover have "seen_inv n (i + length (x # xs)) (f', fs', ls')" using 2(2) by simp
  moreover have "sum_list f' = sum_list f + of_nat (repeats bad (fst ` set ls) (x # xs))"
    using 1(3,4) 2(3) by (auto simp: insert_absorb)
  moreover have "fst ` set ls' = fst ` set ls \<union> set (good bad (x # xs))"
    using 1(4) 2(4) by (auto simp: good_def)
  ultimately show ?case by blast
qed

lemma efor_drop:
  assumes step: "\<And>k s. k < length xs \<Longrightarrow> I k s \<Longrightarrow> \<exists>s'. body (xs ! k) s = Inr s' \<and> I (Suc k) s'"
  shows "k \<le> length xs \<Longrightarrow> I k s \<Longrightarrow> \<exists>s'. efor (drop k xs) body s = Inr s' \<and> I (length xs) s'"
proof (induction "length xs - k" arbitrary: k s)
  case 0
  then show ?case by simp
next
  case (Suc m)
  then have k: "k < length xs" by simp
  from step[OF k Suc.prems(2)] obtain s' where s': "body (xs ! k) s = Inr s'" "I (Suc k) s'"
    by blast
  have "m = length xs - Suc k" using Suc.hyps(2) by simp
  from Suc.hyps(1)[OF this _ s'(2)] k
  obtain s'' where "efor (drop (Suc k) xs) body s' = Inr s''" "I (length xs) s''"
    by auto
  then show ?case using s'(1) k by (simp add: Cons_nth_drop_Suc[symmetric])
qed

lemma efor_rule:
  assumes "I 0 s"
    and "\<And>k s. k < length xs \<Longrightarrow> I k s \<Longrightarrow> \<exists>s'. body (xs ! k) s = Inr s' \<and> I (Suc k) s'"
  shows "\<exists>s'. efor xs body s = Inr s' \<and> I (length xs) s'"
  using efor_drop[of xs I body 0 s] assms by simp

lemma wrap_loop_ok:
  assumes inv: "seen_inv n i (f0, fs, ls)" and i: "i \<le> n"
  shows "length f = n \<Longrightarrow> set labs \<subseteq> fst ` set ls \<Longrightarrow>
     \<exists>f'. efor labs (wrap_entry n fs ls) f = Inr f' \<and> length f' = n
        \<and> sum_list f' = sum_list f + of_nat (length labs)"
proof (induction labs arbitrary: f)
  case Nil
  then show ?case by simp
next
  case (Cons lab labs)
  then have "lab \<in> fst ` set ls" by simp
  then obtain b where b: "map_of ls lab = Some b"
    by (metis map_of_eq_None_iff not_None_eq)
  from inv have "\<forall>lab b. map_of ls lab = Some b \<longrightarrow> b < i \<and> (\<exists>a. map_of fs lab = Some a \<and> a \<le> b)"
    unfolding seen_inv_def prod.case by blast
  with b obtain a where a: "map_of fs lab = Some a" "a \<le> b" "b < i"
    by blast
  then have n: "0 < n" using i by simp
  let ?g = "(int n + int a - int b) mod int n"
  have g: "0 \<le> ?g" "?g < int (length f)" using n Cons.prems(1) by simp_all
  let ?f = "f[nat ?g := f ! nat ?g + 1]"
  have w: "wrap_entry n fs ls lab f = Inr ?f"
    using a b n increment_ok[OF g] by (simp add: wrap_entry_def)
  have "length ?f = n" using Cons.prems(1) by simp
  from Cons.IH[OF this] Cons.prems(2) obtain f' where
    f': "efor labs (wrap_entry n fs ls) ?f = Inr f'" "length f' = n"
      "sum_list f' = sum_list ?f + of_nat (length labs)"
    by auto
  have "sum_list ?f = sum_list f + 1" using g by (intro sum_list_incr) auto
  then show ?case using w f' by simp
qed

lemma scan_row_ok:
  assumes "length f = size'"
  shows "\<exists>f'. scan_row labels size' bc bad row f = Inr f' \<and> length f' = size'
           \<and> sum_list f' = sum_list f + of_nat (line_events bc bad (row_line labels size' row))"
proof -
  let ?line = "row_line labels size' row"
  have inv0: "seen_inv size' 0 (f, [], [])" using assms by (simp add: seen_inv_def)
  have len: "0 + length ?line \<le> size'" by (simp add: row_line_def)
  from scan_line_ok[OF inv0 len, of bad] obtain f1 fs ls where
    1: "efor (enumerate 0 ?line) (scan_entry bad) (f, [], []) = Inr (f1, fs, ls)"
      "seen_inv size' (0 + length ?line) (f1, fs, ls)"
      "sum_list f1 = sum_list f + of_nat (repeats bad {} ?line)"
      "fst ` set ls = set (good bad ?line)"
    by auto
  from 1(2) have f1: "length f1 = size'" and dist: "distinct (map fst ls)"
    by (auto simp: seen_inv_def)
  have keys: "length (map fst ls) = length (remdups (good bad ?line))"
    using dist 1(4) by (metis distinct_card length_remdups_card_conv set_map)
  show ?thesis
  proof (cases "bc = ''p''")
    case True
    from wrap_loop_ok[OF 1(2) len f1, of "map fst ls"] obtain f' where
      2: "efor (map fst ls) (wrap_entry size' fs ls) f1 = Inr f'" "length f' = size'"
        "sum_list f' = sum_list f1 + of_nat (length (map fst ls))"
      by auto
    have "scan_row labels size' bc bad row f = Inr f'"
      using 1(1) 2(1) True by (simp add: scan_row_def row_line_def)
    moreover have "sum_list f' = sum_list f + of_nat (line_events bc bad ?line)"
      using 1(3) 2(3) keys True by (simp add: line_events_def repeats_empty)
    ultimately show ?thesis using 2(2) by blast
  next
    case False
    have "scan_row labels size' bc bad row f = Inr f1"
      using 1(1) False by (simp add: scan_row_def row_line_def)
    moreover have "sum_list f1 = sum_list f + of_nat (line_events bc bad ?line)"
      using 1(3) False by (simp add: line_events_def repeats_empty)
    ultimately show ?thesis using f1 by blast
  qed
qed

lemma pass_ok:
  assumes "length f = size'"
  shows "\<exists>f'. efor [0..<size'] (scan_row labels size' bc bad) f = Inr f' \<and> length f' = size'
           \<and> sum_list f' = sum_list f + of_nat (gap_events labels size' bc bad)"
proof -
  let ?ev = "\<lambda>row. line_events bc bad (row_line labels size' row)"
  let ?I = "\<lambda>k f'. length f' = size' \<and> sum_list f' = sum_list f + of_nat (sum_list (map ?ev [0..<k]))"
  have "\<exists>f'. efor [0..<size'] (scan_row labels size' bc bad) f = Inr f' \<and> ?I (length [0..<size']) f'"
  proof (rule efor_rule[where I = ?I])
    show "?I 0 f" using assms by simp
  next
    fix k and s :: "rat list"
    assume k: "k < length [0..<size']" and I: "?I k s"
    from scan_row_ok[of s size' labels bc bad k] I obtain s' where
      "scan_row labels size' bc bad k s = Inr s'" "length s' = size'"
      "sum_list s' = sum_list s + of_nat (?ev k)"
      by auto
    then show "\<exists>s'. scan_row labels size' bc bad ([0..<size'] ! k) s = Inr s' \<and> ?I (Suc k) s'"
      using k I by simp
  qed
  then show ?thesis by (simp add: gap_events_def)
qed

lemma get_bonds_one_ok:
  fixes state :: "'a::{zero,times} ndarray"
  assumes "length (data state) = prod_list (shape state)" and "d \<le> length (shape state)"
  shows "\<exists>bonds. get_bonds_nd state d ''one'' = Inr bonds \<and> length bonds = d
           \<and> (\<forall>n<d. shape (bonds ! n) = shape state
                  \<and> length (data (bonds ! n)) = prod_list (shape state)
                  \<and> (\<forall>cs. list_all2 (<) cs (shape state) \<longrightarrow>
                        nd_index (bonds ! n) cs
                          = Inr (Num (nd_val state (pred_coords (shape state) cs n) * nd_val state cs))))"
proof -
  let ?sh = "shape state" and ?P = "product_lists (ranges (shape state))"
  let ?N = "prod_list (shape state)"
  let ?roll = "\<lambda>m. \<lparr>shape = ?sh,
      data = map (\<lambda>cs. data state ! ravel ?sh (cs[m := (cs ! m + ?sh ! m - 1) mod (?sh ! m)])) ?P\<rparr>"
  have rolls: "collect (map (np_roll1 state) [0..<d]) = Inr (map ?roll [0..<d])"
    using assms(2) by (intro collect_map_Inr) (simp add: np_roll1_def)
  let ?one = "map (\<lambda>roll. \<lparr>shape = ?sh, data = map2 (\<lambda>r s. Num (r * s)) (data roll) (data state)\<rparr>)
      (map ?roll [0..<d])"
  have one: "get_bonds_nd state d ''one'' = Inr ?one" by (simp add: get_bonds_nd_def rolls)
  have entry: "nd_index (?one ! n) cs
      = Inr (Num (nd_val state (pred_coords ?sh cs n) * nd_val state cs))"
    if n: "n < d" and cs: "list_all2 (<) cs ?sh" for n cs
  proof -
    let ?k = "ravel ?sh cs"
    have k: "?k < ?N" using ravel_less[OF cs] .
    have nsh: "n < length ?sh" using assms(2) n by simp
    have cn: "cs ! n < ?sh ! n" using cs nsh by (simp add: list_all2_conv_all_nth)
    have pred: "(?P ! ?k)[n := (?P ! ?k ! n + ?sh ! n - 1) mod (?sh ! n)] = pred_coords ?sh cs n"
      unfolding ranges_nth_ravel[OF cs] pred_coords_def using roll_mod[OF cn] by simp
    have rk: "data (?roll n) ! ?k = nd_val state (pred_coords ?sh cs n)"
      using k pred by (simp add: length_ranges_product nd_val_def)
    have lr: "length (data (?roll n)) = ?N" by (simp add: length_ranges_product)
    have "nd_index (?one ! n) cs = Inr (Num (data (?roll n) ! ?k * data state ! ?k))"
      using assms(1) n cs k lr by (simp add: nd_index_def)
    then show ?thesis unfolding rk by (simp add: nd_val_def)
  qed
  have "shape (?one ! n) = ?sh \<and> length (data (?one ! n)) = ?N" if "n < d" for n
    using that assms(1) by (simp add: length_ranges_product)
  with one entry show ?thesis by (intro exI[of _ ?one]) simp
qed

lemma counter_fold_map_of:
  "map_of (fold (\<lambda>x al. AList.update x (case map_of al x of None \<Rightarrow> 1 | Some c \<Rightarrow> c + 1) al) xs al) k
     = (if count_list xs k = 0 then map_of al k
        else Some (count_list xs k + (case map_of al k of None \<Rightarrow> 0 | Some c \<Rightarrow> c)))"
proof (induction xs arbitrary: al)
  case Nil
  then show ?case by simp
next
  case (Cons x xs)
  show ?case
    by (simp add: Cons.IH update_conv' split: option.splits)
qed

lemma counter_fold_distinct:
  "distinct (map fst al) \<Longrightarrow>
     distinct (map fst (fold (\<lambda>x al. AList.update x (case map_of al x of None \<Rightarrow> 1 | Some c \<Rightarrow> c + 1) al) xs al))"
  by (induction xs arbitrary: al) (simp_all add: distinct_update)

lemma counter_map_of:
  "map_of (counter xs) k = (if k \<in> set xs then Some (count_list xs k) else None)"
  unfolding counter_def by (simp add: counter_fold_map_of count_list_0_iff)

lemma counter_distinct: "distinct (map fst (counter xs))"
  unfolding counter_def by (rule counter_fold_distinct) simp

lemma first_max:
  "fold (\<lambda>q best. if snd best < snd q then q else best) ps p \<in> set (p # ps)
   \<and> (\<forall>q\<in>set (p # ps). snd q \<le> snd (fold (\<lambda>q best. if snd best < snd q then q else best) ps (p::int \<times> nat)))"
proof (induction ps arbitrary: p)
  case Nil
  then show ?case by simp
next
  case (Cons q ps)
  let ?p = "if snd p < snd q then q else p"
  from Cons.IH[of ?p] show ?case by (auto split: if_splits)
qed

lemma most_common1_ok:
  assumes "xs \<noteq> []"
  shows "\<exists>lc. most_common1 xs = Inr (lc, count_list xs lc) \<and> lc \<in> set xs
           \<and> (\<forall>l. count_list xs l \<le> count_list xs lc)"
proof -
  from assms obtain x where "x \<in> set xs" by (cases xs) auto
  then have "map_of (counter xs) x \<noteq> None" by (simp add: counter_map_of)
  then obtain p ps where c: "counter xs = p # ps" by (cases "counter xs") auto
  let ?r = "fold (\<lambda>q best. if snd best < snd q then q else best) ps p"
  have r: "most_common1 xs = Inr ?r" by (simp add: most_common1_def c)
  from first_max[of ps p] have mem: "?r \<in> set (counter xs)"
    and mx: "\<And>q. q \<in> set (counter xs) \<Longrightarrow> snd q \<le> snd ?r" by (auto simp: c)
  obtain lc n where rn: "?r = (lc, n)" by (cases ?r)
  have "map_of (counter xs) lc = Some n" using mem rn counter_distinct by simp
  then have lc: "lc \<in> set xs" "n = count_list xs lc"
    by (auto simp: counter_map_of split: if_splits)
  have "count_list xs l \<le> n" for l
  proof (cases "l \<in> set xs")
    case True
    then have "map_of (counter xs) l = Some (count_list xs l)" by (simp add: counter_map_of)
    then have "(l, count_list xs l) \<in> set (counter xs)" by (rule map_of_SomeD)
    from mx[OF this] rn show ?thesis by simp
  next
    case False
    then show ?thesis by (simp add: count_list_0_iff)
  qed
  then show ?thesis using r rn lc by auto
qed

lemma exclude_largest_ok:
  assumes "length labels = size' * size'"
  shows "exclude_largest labels lc size'
     = Inr (map (\<lambda>i. if labels ! i = lc then int i else labels ! i) [0..<size' * size'])"
proof -
  have "map (\<lambda>(i, l). if l = lc then int i else l) (zip [0..<size' * size'] labels)
      = map (\<lambda>i. if labels ! i = lc then int i else labels ! i) [0..<size' * size']"
    using assms by (intro nth_equalityI) auto
  then show ?thesis using assms by (simp add: exclude_largest_def broadcast2_def)
qed

lemma analysis_labels_ok:
  fixes binned :: "'a::{zero,times} ndarray"
  assumes "shape binned = [s, s]" and "length (data binned) = s * s" and "0 < s"
  shows "\<exists>bonds labels lc.
           get_bonds_nd binned 2 ''one'' = Inr bonds
           \<and> wf_input bonds [s, s] 2 ''pp''
           \<and> (\<forall>n<2. \<forall>cs. list_all2 (<) cs [s, s] \<longrightarrow>
                 bond_active bonds n cs
                   = (nd_val binned (pred_coords [s, s] cs n) * nd_val binned cs \<noteq> 0))
           \<and> hoshen_kopelman_nd bonds [s, s] 2 ''pp'' False = Some (Inr labels)
           \<and> length labels = s * s
           \<and> (\<forall>i<s * s. is_root labels (labels ! i))
           \<and> (\<forall>i<s * s. \<forall>j<s * s.
                 labels ! i = labels ! j \<longleftrightarrow> (i, j) \<in> bond_connected bonds [s, s] ''pp'')
           \<and> most_common1 labels = Inr (lc, count_list labels lc)
           \<and> lc \<in> set labels \<and> (\<forall>l. count_list labels l \<le> count_list labels lc)
           \<and> analysis_labels binned s LC
               = Some (Inr (labels,
                    (if LC = ''exclude''
                     then map (\<lambda>i. if labels ! i = lc then int i else labels ! i) [0..<s * s]
                     else labels),
                    lc, count_list labels lc))"
proof -
  have a: "length (data binned) = prod_list (shape binned)" "2 \<le> length (shape binned)"
    using assms by simp_all
  from get_bonds_one_ok[OF a] obtain bonds where
    b: "get_bonds_nd binned 2 ''one'' = Inr bonds" "length bonds = 2"
      "\<And>n. n < 2 \<Longrightarrow> shape (bonds ! n) = [s, s] \<and> length (data (bonds ! n)) = s * s"
      "\<And>n cs. n < 2 \<Longrightarrow> list_all2 (<) cs [s, s] \<Longrightarrow>
         nd_index (bonds ! n) cs
           = Inr (Num (nd_val binned (pred_coords [s, s] cs n) * nd_val binned cs))"
    using assms(1) by auto
  have "list_all (\<lambda>b. shape b = [s, s] \<and> length (data b) = prod_list [s, s]) bonds"
    using b(2,3) by (simp add: list_all_length)
  then have wf: "wf_input bonds [s, s] 2 ''pp''"
    using b(2) by (simp add: wf_input_def)
  have act: "bond_active bonds n cs
      = (nd_val binned (pred_coords [s, s] cs n) * nd_val binned cs \<noteq> 0)"
    if "n < 2" "list_all2 (<) cs [s, s]" for n cs
    using b(4)[OF that] by (simp add: bond_active_def)
  have pos: "list_all (\<lambda>x. 0 < x) [s, s]" using assms(3) by simp
  from hk_run_ok[OF wf pos] obtain st where
    st: "hk_run bonds [s, s] 2 ''pp'' = Some (Inr st)" "length (hk_labels st) = s * s"
      "\<And>i. i < s * s \<Longrightarrow> is_root (hk_labels st) (hk_labels st ! i)"
      "\<And>i j. i < s * s \<Longrightarrow> j < s * s \<Longrightarrow>
         hk_labels st ! i = hk_labels st ! j \<longleftrightarrow> (i, j) \<in> bond_connected bonds [s, s] ''pp''"
    by auto
  let ?ls = "hk_labels st"
  have hk: "hoshen_kopelman_nd bonds [s, s] 2 ''pp'' False = Some (Inr ?ls)"
    using st(1) by (simp add: hoshen_kopelman_nd_def)
  have "?ls \<noteq> []" using st(2) assms(3) by auto
  from most_common1_ok[OF this] obtain lc where
    lc: "most_common1 ?ls = Inr (lc, count_list ?ls lc)" "lc \<in> set ?ls"
      "\<And>l. count_list ?ls l \<le> count_list ?ls lc"
    by blast
  have "analysis_labels binned s LC
      = Some (Inr (?ls,
           (if LC = ''exclude''
            then map (\<lambda>i. if ?ls ! i = lc then int i else ?ls ! i) [0..<s * s]
            else ?ls),
           lc, count_list ?ls lc))"
    using b(1) hk lc(1) exclude_largest_ok[OF st(2), of lc]
    by (simp add: analysis_labels_def)
  then show ?thesis using b(1) wf act hk st(2,3,4) lc by blast
qed


lemma folded_nth:
  assumes "length g = 2 * h" "i < h"
  shows "map (\<lambda>(x, y). x + y) (zip (take h g) (rev (drop h g))) ! i = g ! i + g ! (2 * h - 1 - i)"
proof -
  have "rev (drop h g) ! i = drop h g ! (length (drop h g) - Suc i)"
    using assms by (intro rev_nth) simp
  also have "\<dots> = g ! (h + (h - Suc i))" using assms by simp
  also have "h + (h - Suc i) = 2 * h - 1 - i" using assms by simp
  finally show ?thesis using assms by simp
qed

lemma dot_arange:
  assumes "length ys = h"
  shows "sum_list (map2 (*) (map of_nat [0..<h]) ys) = (\<Sum>i<h. of_nat i * (ys ! i :: rat))"
proof -
  have "map2 (*) (map of_nat [0..<h]) ys = map (\<lambda>i. of_nat i * ys ! i) [0..<h]"
    using assms by (intro nth_equalityI) auto
  then show ?thesis by (simp add: interv_sum_list_conv_sum_set_nat atLeast0LessThan)
qed

lemma corner_even:
  assumes "length g = 2 * h"
  shows "corner_contribution g (2 * h) = Inr (corner_sum g (2 * h))"
proof -
  let ?folded = "map (\<lambda>(x, y). x + y) (zip (take h g) (rev (drop h g)))"
  have add: "np_add (take h g) (rev (drop h g)) = Inr ?folded"
    using assms by (simp add: np_add_def broadcast2_def)
  have len: "length ?folded = h" using assms by simp
  have "sum_list (map2 (*) (map of_nat [0..<h]) ?folded) = (\<Sum>i<h. of_nat i * (?folded ! i))"
    using len by (rule dot_arange)
  also have "\<dots> = (\<Sum>i<h. of_nat i * (g ! i + g ! (2 * h - 1 - i)))"
    using folded_nth[OF assms] by (intro sum.cong) auto
  finally have "np_dot_rat (map of_nat [0..<h]) ?folded
      = Inr (\<Sum>i<h. of_nat i * (g ! i + g ! (2 * h - 1 - i)))"
    using len by (simp add: np_dot_rat_def)
  then show ?thesis using add by (simp add: corner_contribution_def corner_sum_def)
qed

lemma corner_formula:
  assumes "length g = size'" and "corner_contribution g size' = Inr c"
  shows "c = corner_sum g size'"
proof (cases "even size'")
  case True
  then obtain h where "size' = 2 * h" by (auto elim: evenE)
  with corner_even[of g h] assms show ?thesis by simp
next
  case False
  then obtain h where h: "size' = 2 * h + 1" by (auto elim: oddE)
  then have d: "size' div 2 = h" by simp
  let ?xs = "take h g" and ?ys = "rev (drop h g)"
  have lx: "length ?xs = h" and ly: "length ?ys = h + 1" using assms(1) h by simp_all
  show ?thesis
  proof (cases "h = 0")
    case True
    then have "corner_contribution g size' = Inr 0"
      using assms(1) h by (simp add: corner_contribution_def np_add_def broadcast2_def np_dot_rat_def)
    then show ?thesis using assms(2) True h by (simp add: corner_sum_def)
  next
    case False
    have "corner_contribution g size' = Inl ValueError"
    proof (cases "h = 1")
      case True
      then show ?thesis
        using lx ly unfolding corner_contribution_def d
        by (simp add: np_add_def broadcast2_def np_dot_rat_def ebind_def)
    next
      case False
      then show ?thesis
        using lx ly \<open>h \<noteq> 0\<close> unfolding corner_contribution_def d
        by (simp add: np_add_def broadcast2_def ebind_def)
    qed
    with assms(2) show ?thesis by simp
  qed
qed

lemma gapstat_both:
  "get_gapstat_2d labels size' bc True bad = Inr g \<Longrightarrow> length g = size' \<and> length labels = size' * size'"
proof -
  assume r: "get_gapstat_2d labels size' bc True bad = Inr g"
  from pass_ok[of "replicate size' 0" size' labels bc bad] obtain f where
    f: "efor [0..<size'] (scan_row labels size' bc bad) (replicate size' 0) = Inr f" "length f = size'"
    by auto
  show ?thesis
  proof (cases "length labels = size' * size'")
    case True
    then obtain labels' where t: "transpose_flat labels size' = Inr labels'"
      by (simp add: transpose_flat_def)
    from pass_ok[OF f(2), of labels' bc bad] obtain f2 where
      f2: "efor [0..<size'] (scan_row labels' size' bc bad) f = Inr f2" "length f2 = size'"
      by auto
    have "get_gapstat_2d labels size' bc True bad = Inr (map (\<lambda>x. x / of_nat (size' * 2)) f2)"
      using f(1) t f2(1) by (simp add: get_gapstat_2d_def)
    with r f2(2) True show ?thesis by auto
  next
    case False
    then have "get_gapstat_2d labels size' bc True bad = Inl ValueError"
      using f(1) by (simp add: get_gapstat_2d_def transpose_flat_def ebind_def)
    with r show ?thesis by simp
  qed
qed

lemma gapstat_both_total:
  assumes "length labels = size' * size'"
  shows "\<exists>g. get_gapstat_2d labels size' bc True bad = Inr g \<and> length g = size'"
proof -
  from pass_ok[of "replicate size' 0" size' labels bc bad] obtain f where
    f: "efor [0..<size'] (scan_row labels size' bc bad) (replicate size' 0) = Inr f" "length f = size'"
    by auto
  obtain labels' where t: "transpose_flat labels size' = Inr labels'"
    using assms by (simp add: transpose_flat_def)
  from pass_ok[OF f(2), of labels' bc bad] obtain f2 where
    f2: "efor [0..<size'] (scan_row labels' size' bc bad) f = Inr f2" "length f2 = size'"
    by auto
  have "get_gapstat_2d labels size' bc True bad = Inr (map (\<lambda>x. x / of_nat (size' * 2)) f2)"
    using f(1) t f2(1) by (simp add: get_gapstat_2d_def)
  then show ?thesis using f2(2) by simp
qed

lemma analysis_corner:
  assumes "analysis binned size' LC = Some (Inr (corner, g, n))"
  shows "length g = size' \<and> corner = corner_sum g size'"
proof -
  from assms obtain labels' where
    g: "get_gapstat_2d labels' size' ''p'' True None = Inr g"
    and c: "corner_contribution g size' = Inr corner"
    by (auto simp: analysis_def rbind_eq_Inr split: prod.splits)
  from gapstat_both[OF g] have "length g = size'" by simp
  with corner_formula[OF _ c] show ?thesis by simp
qed

lemma analysis_total:
  fixes binned :: "'a::{zero,times} ndarray"
  assumes "shape binned = [s, s]" and "length (data binned) = s * s" and "0 < s" and "even s"
  shows "\<exists>corner g n. analysis binned s LC = Some (Inr (corner, g, n))"
proof -
  from analysis_labels_ok[OF assms(1,2,3), of LC] obtain labels labels' lc n where
    a: "analysis_labels binned s LC = Some (Inr (labels, labels', lc, n))" "length labels = s * s"
      "labels' = (if LC = ''exclude''
                  then map (\<lambda>i. if labels ! i = lc then int i else labels ! i) [0..<s * s]
                  else labels)"
    by blast
  have "length labels' = s * s" using a(2,3) by simp
  from gapstat_both_total[OF this, of "''p''" None] obtain g where
    g: "get_gapstat_2d labels' s ''p'' True None = Inr g" "length g = s" by blast
  from assms(4) obtain h where "s = 2 * h" by (auto elim: evenE)
  with corner_even[of g h] g(2) have "corner_contribution g s = Inr (corner_sum g s)" by simp
  then show ?thesis using a(1) g(1) by (simp add: analysis_def)
qed

lemma ravel_all_zero:
  "length cs = length sh \<Longrightarrow> \<forall>n<length sh. cs ! n = 0 \<Longrightarrow> ravel sh cs = 0"
proof (induction sh arbitrary: cs)
  case Nil
  then show ?case by simp
next
  case (Cons s sh)
  then obtain c cs' where cs: "cs = c # cs'" "length cs' = length sh" by (cases cs) auto
  have "c = 0" using Cons.prems(2) cs by auto
  moreover have "\<forall>n<length sh. cs' ! n = 0" using Cons.prems(2) cs by auto
  ultimately show ?case using Cons.IH[OF cs(2)] cs by simp
qed

lemma full_lattice_connected:
  assumes act: "\<And>n cs. n < length sizes \<Longrightarrow> list_all2 (<) cs sizes \<Longrightarrow> bond_active bonds n cs"
  shows "k < prod_list sizes \<Longrightarrow> (k, 0) \<in> bond_connected bonds sizes bc"
proof (induction k rule: less_induct)
  case (less k)
  show ?case
  proof (cases "k = 0")
    case True
    then show ?thesis by (simp add: bond_connected_def)
  next
    case False
    let ?cs = "product_lists (ranges sizes) ! k"
    have cs: "list_all2 (<) ?cs sizes"
      using less.prems in_ranges[of ?cs sizes] by (simp add: length_ranges_product)
    have rk: "ravel sizes ?cs = k" using ravel_nth[OF less.prems] .
    have "\<not> (\<forall>n<length sizes. ?cs ! n = 0)"
    proof
      assume z: "\<forall>n<length sizes. ?cs ! n = 0"
      have "length ?cs = length sizes" using cs by (rule list_all2_lengthD)
      from ravel_all_zero[OF this z] rk False show False by simp
    qed
    then obtain n where n: "n < length sizes" "?cs ! n \<noteq> 0" by blast
    let ?k' = "ravel sizes (?cs[n := ?cs ! n - 1])"
    have "k = ?k' + prod_list (drop (Suc n) sizes)" using ravel_pred[OF cs n] rk by simp
    moreover have "0 < prod_list (drop (Suc n) sizes)" using valid_sizes_pos[OF cs] .
    ultimately have lt: "?k' < k" by linarith
    have "(ravel sizes ?cs, ?k') \<in> interior_edges bonds sizes"
      unfolding interior_edges_def using cs n act[OF n(1) cs] by blast
    then have "(k, ?k') \<in> bond_connected bonds sizes bc"
      unfolding bond_connected_def rk by (intro eqcl_edge) simp
    moreover have "(?k', 0) \<in> bond_connected bonds sizes bc"
      using less.IH[OF lt] lt less.prems by simp
    ultimately show ?thesis unfolding bond_connected_def by (rule eqcl_trans)
  qed
qed

lemma scan_line_distinct:
  "distinct (good bad xs) \<Longrightarrow> set (good bad xs) \<inter> fst ` set al = {} \<Longrightarrow>
     \<exists>al'. efor (enumerate i xs) (scan_entry bad) (f, al, al) = Inr (f, al', al')
        \<and> fst ` set al' = fst ` set al \<union> set (good bad xs)"
proof (induction xs arbitrary: i al)
  case Nil
  then show ?case by (simp add: good_def)
next
  case (Cons x xs)
  show ?case
  proof (cases "Some x \<noteq> bad")
    case False
    then have g: "good bad (x # xs) = good bad xs" by (simp add: good_def)
    from Cons.IH[of al "Suc i"] Cons.prems g obtain al' where
      "efor (enumerate (Suc i) xs) (scan_entry bad) (f, al, al) = Inr (f, al', al')"
      "fst ` set al' = fst ` set al \<union> set (good bad xs)" by auto
    then show ?thesis using False g by simp
  next
    case True
    then have g: "good bad (x # xs) = x # good bad xs" by (simp add: good_def)
    have nk: "map_of al x = None" using Cons.prems(2) g by (auto simp: map_of_eq_None_iff)
    let ?al = "AList.update x i al"
    have "distinct (good bad xs)" "set (good bad xs) \<inter> fst ` set ?al = {}"
      using Cons.prems g by (auto simp: dom_update)
    from Cons.IH[OF this, of "Suc i"] obtain al' where
      al': "efor (enumerate (Suc i) xs) (scan_entry bad) (f, ?al, ?al) = Inr (f, al', al')"
        "fst ` set al' = fst ` set ?al \<union> set (good bad xs)" by blast
    have "efor (enumerate i (x # xs)) (scan_entry bad) (f, al, al) = Inr (f, al', al')"
      using True nk al'(1) by simp
    moreover have "fst ` set al' = fst ` set al \<union> set (good bad (x # xs))"
      using al'(2) g by (auto simp: dom_update)
    ultimately show ?thesis by blast
  qed
qed

lemma wrap_loop_same:
  assumes "0 < n"
  shows "length f = n \<Longrightarrow> set labs \<subseteq> fst ` set al \<Longrightarrow>
     \<exists>c. efor labs (wrap_entry n al al) f = Inr (f[0 := c])"
proof (induction labs arbitrary: f)
  case Nil
  have "f = f[0 := f ! 0]" by simp
  then show ?case by (metis efor.simps(1))
next
  case (Cons lab labs)
  then obtain a where a: "map_of al lab = Some a"
    by (metis list.set_intros(1) map_of_eq_None_iff not_None_eq subsetD)
  have "(int n + int a - int a) mod int n = 0" by simp
  then have w: "wrap_entry n al al lab f = Inr (f[0 := f ! 0 + 1])"
    using a assms Cons.prems(1) increment_ok[of 0 f] by (simp add: wrap_entry_def)
  from Cons.IH[of "f[0 := f ! 0 + 1]"] Cons.prems obtain c where
    "efor labs (wrap_entry n al al) (f[0 := f ! 0 + 1]) = Inr (f[0 := f ! 0 + 1, 0 := c])"
    by auto
  then show ?case using w by (intro exI[of _ c]) simp
qed

lemma scan_row_distinct:
  assumes "0 < size'" and "length f = size'"
    and "distinct (good bad (row_line labels size' row))"
  shows "\<exists>c. scan_row labels size' ''p'' bad row f = Inr (f[0 := c])"
proof -
  from scan_line_distinct[OF assms(3), of "[]" 0 f] obtain al where
    al: "efor (enumerate 0 (row_line labels size' row)) (scan_entry bad) (f, [], []) = Inr (f, al, al)"
    by auto
  from wrap_loop_same[OF assms(1,2), of "map fst al" al] obtain c where
    "efor (map fst al) (wrap_entry size' al al) f = Inr (f[0 := c])" by auto
  then show ?thesis using al by (auto simp: scan_row_def row_line_def)
qed

lemma pass_distinct:
  assumes "0 < size'" and "length f = size'"
    and "\<And>row. distinct (good bad (row_line labels size' row))"
  shows "\<exists>c. efor [0..<size'] (scan_row labels size' ''p'' bad) f = Inr (f[0 := c])"
proof -
  let ?I = "\<lambda>(k::nat) s. \<exists>c. s = f[0 := c]"
  have "\<exists>s'. efor [0..<size'] (scan_row labels size' ''p'' bad) f = Inr s' \<and> ?I (length [0..<size']) s'"
  proof (rule efor_rule[where I = ?I])
    show "?I 0 f" by (metis list_update_id)
  next
    fix k and s :: "rat list"
    assume "k < length [0..<size']" and "?I k s"
    then obtain c where s: "s = f[0 := c]" by blast
    then have "length s = size'" using assms(2) by simp
    from scan_row_distinct[OF assms(1) this assms(3), of "[0..<size'] ! k"] obtain c' where
      "scan_row labels size' ''p'' bad ([0..<size'] ! k) s = Inr (s[0 := c'])" by blast
    then show "\<exists>s'. scan_row labels size' ''p'' bad ([0..<size'] ! k) s = Inr s' \<and> ?I (Suc k) s'"
      using s by auto
  qed
  then show ?thesis by auto
qed

lemma rows_distinct: "distinct labels \<Longrightarrow> distinct (good bad (row_line labels size' row))"
  by (simp add: good_def row_line_def)

lemma transpose_index_inj:
  fixes s k k' :: nat
  assumes "0 < s" "k < s * s" "k' < s * s"
    and "(k mod s) * s + k div s = (k' mod s) * s + k' div s"
  shows "k = k'"
proof -
  have d: "k div s < s" "k' div s < s"
    using assms(2,3) by (auto intro: less_mult_imp_div_less)
  have "((k mod s) * s + k div s) div s = k mod s" "((k mod s) * s + k div s) mod s = k div s"
    using d(1) by simp_all
  moreover have "((k' mod s) * s + k' div s) div s = k' mod s" "((k' mod s) * s + k' div s) mod s = k' div s"
    using d(2) by simp_all
  ultimately have "k mod s = k' mod s" "k div s = k' div s" using assms(4) by simp_all
  then show ?thesis by (metis div_mult_mod_eq)
qed

lemma transpose_index_less:
  fixes s k :: nat
  assumes "0 < s" "k < s * s"
  shows "(k mod s) * s + k div s < s * s"
proof -
  have "k div s < s" using assms(2) by (rule less_mult_imp_div_less)
  moreover have "k mod s < s" using assms(1) by simp
  then have "Suc (k mod s) \<le> s" by simp
  then have "Suc (k mod s) * s \<le> s * s" by (rule mult_le_mono1)
  ultimately show ?thesis by simp
qed

lemma transpose_distinct:
  assumes "0 < s"
  shows "transpose_flat (map int [0..<s * s]) s
     = Inr (map (\<lambda>k. int ((k mod s) * s + k div s)) [0..<s * s])
   \<and> distinct (map (\<lambda>k. int ((k mod s) * s + k div s)) [0..<s * s])"
proof -
  have "map (\<lambda>k. map int [0..<s * s] ! ((k mod s) * s + k div s)) [0..<s * s]
      = map (\<lambda>k. int ((k mod s) * s + k div s)) [0..<s * s]"
    using transpose_index_less[OF assms] by (intro map_cong) simp_all
  then have 1: "transpose_flat (map int [0..<s * s]) s
     = Inr (map (\<lambda>k. int ((k mod s) * s + k div s)) [0..<s * s])"
    by (simp add: transpose_flat_def)
  have "inj_on (\<lambda>k. int ((k mod s) * s + k div s)) (set [0..<s * s])"
  proof (rule inj_onI)
    fix x y
    assume x: "x \<in> set [0..<s * s]" and y: "y \<in> set [0..<s * s]"
      and "int ((x mod s) * s + x div s) = int ((y mod s) * s + y div s)"
    then have "(x mod s) * s + x div s = (y mod s) * s + y div s" by (simp only: of_nat_eq_iff)
    then show "x = y" using transpose_index_inj[OF assms, of x y] x y by simp
  qed
  then have "distinct (map (\<lambda>k. int ((k mod s) * s + k div s)) [0..<s * s])"
    by (simp add: distinct_map)
  with 1 show ?thesis by simp
qed

lemma corner_sum_zero:
  assumes "length g = 2 * h" and "\<And>k. 0 < k \<Longrightarrow> k < 2 * h \<Longrightarrow> g ! k = 0"
  shows "corner_sum g (2 * h) = 0"
proof -
  have "of_nat ell * (g ! ell + g ! (2 * h - 1 - ell)) = 0" if "ell < h" for ell
  proof (cases "ell = 0")
    case True
    then show ?thesis by simp
  next
    case False
    then have "g ! ell = 0" "g ! (2 * h - 1 - ell) = 0" using that assms(2) by simp_all
    then show ?thesis by simp
  qed
  then have "(\<Sum>ell<h. of_nat ell * (g ! ell + g ! (2 * h - 1 - ell))) = 0"
    by (intro sum.neutral) simp
  then show ?thesis by (simp add: corner_sum_def)
qed

lemma analysis_returns:
  assumes "analysis binned s LC = Some (Inr (corner, g, n))"
  shows "\<exists>bonds labels lc labels'.
      get_bonds_nd binned 2 ''one'' = Inr bonds
    \<and> hoshen_kopelman_nd bonds [s, s] 2 ''pp'' False = Some (Inr labels)
    \<and> most_common1 labels = Inr (lc, n)
    \<and> (if LC = ''exclude'' then exclude_largest labels lc s else Inr labels) = Inr labels'
    \<and> get_gapstat_2d labels' s ''p'' True None = Inr g
    \<and> corner_contribution g s = Inr corner"
proof -
  from assms obtain labels labels' lc where
    al: "analysis_labels binned s LC = Some (Inr (labels, labels', lc, n))"
    and g: "get_gapstat_2d labels' s ''p'' True None = Inr g"
    and c: "corner_contribution g s = Inr corner"
    by (auto simp: analysis_def rbind_eq_Inr split: prod.splits)
  from al obtain bonds where
    "get_bonds_nd binned 2 ''one'' = Inr bonds"
    "hoshen_kopelman_nd bonds [s, s] 2 ''pp'' False = Some (Inr labels)"
    "most_common1 labels = Inr (lc, n)"
    "(if LC = ''exclude'' then exclude_largest labels lc s else Inr labels) = Inr labels'"
    by (auto simp: analysis_labels_def rbind_eq_Inr split: prod.splits if_splits)
  with g c show ?thesis by blast
qed

lemma corner_odd:
  assumes "length g = s" and "odd s" and "3 \<le> s"
  shows "corner_contribution g s = Inl ValueError"
proof -
  from assms(2) obtain h where h: "s = 2 * h + 1" by (auto elim: oddE)
  then have d: "s div 2 = h" by simp
  have h0: "h \<noteq> 0" using assms(3) h by simp
  let ?xs = "take h g" and ?ys = "rev (drop h g)"
  have lx: "length ?xs = h" and ly: "length ?ys = h + 1" using assms(1) h by simp_all
  show ?thesis
  proof (cases "h = 1")
    case True
    then show ?thesis
      using lx ly unfolding corner_contribution_def d
      by (simp add: np_add_def broadcast2_def np_dot_rat_def ebind_def)
  next
    case False
    then show ?thesis
      using lx ly h0 unfolding corner_contribution_def d
      by (simp add: np_add_def broadcast2_def ebind_def)
  qed
qed

lemma analysis_odd:
  fixes binned :: "'a::{zero,times} ndarray"
  assumes "shape binned = [s, s]" and "length (data binned) = s * s" and "odd s" and "3 \<le> s"
  shows "analysis binned s LC = Some (Inl ValueError)"
proof -
  have pos: "0 < s" using assms(4) by simp
  from analysis_labels_ok[OF assms(1,2) pos, of LC] obtain labels labels' lc n where
    a: "analysis_labels binned s LC = Some (Inr (labels, labels', lc, n))" "length labels = s * s"
      "labels' = (if LC = ''exclude''
                  then map (\<lambda>i. if labels ! i = lc then int i else labels ! i) [0..<s * s]
                  else labels)"
    by blast
  have "length labels' = s * s" using a(2,3) by simp
  from gapstat_both_total[OF this, of "''p''" None] obtain g where
    g: "get_gapstat_2d labels' s ''p'' True None = Inr g" "length g = s" by blast
  from corner_odd[OF g(2) assms(3,4)] show ?thesis
    using a(1) g(1) by (simp add: analysis_def rbind_def lift_def)
qed

lemma gap_events_distinct:
  assumes "length labels = s * s" and "distinct labels"
  shows "gap_events labels s ''p'' None = s * s"
proof -
  have "line_events ''p'' None (row_line labels s row) = s" if "row < s" for row
  proof -
    have "Suc row * s \<le> s * s" using that by (metis Suc_leI mult_le_mono1)
    then have "length (row_line labels s row) = s"
      using assms(1) by (simp add: row_line_def)
    moreover have "distinct (row_line labels s row)"
      using assms(2) by (simp add: row_line_def)
    ultimately show ?thesis by (simp add: line_events_def good_def distinct_remdups_id)
  qed
  then have "map (\<lambda>row. line_events ''p'' None (row_line labels s row)) [0..<s] = map (\<lambda>_. s) [0..<s]"
    by (intro map_cong) simp_all
  then show ?thesis by (simp add: gap_events_def sum_list_replicate map_replicate_const)
qed

lemma gapstat_all_distinct_exact:
  assumes "0 < s"
  shows "get_gapstat_2d (map int [0..<s * s]) s ''p'' True None = Inr (of_nat s # replicate (s - 1) 0)"
proof -
  let ?ls = "map int [0..<s * s]"
  let ?lt = "map (\<lambda>k. int ((k mod s) * s + k div s)) [0..<s * s]"
  have d1: "distinct ?ls" by (simp add: distinct_map inj_on_def)
  from transpose_distinct[OF assms] have t: "transpose_flat ?ls s = Inr ?lt" and d2: "distinct ?lt"
    by simp_all
  let ?z = "replicate s (0::rat)"
  obtain m where m: "s = Suc m" using assms by (cases s) auto
  have upd: "?z[0 := c] = c # replicate (s - 1) 0" for c by (simp add: m)
  from pass_distinct[OF assms, of ?z None ?ls] rows_distinct[OF d1] obtain c where
    1: "efor [0..<s] (scan_row ?ls s ''p'' None) ?z = Inr (?z[0 := c])" by auto
  from pass_distinct[OF assms, of "?z[0 := c]" None ?lt] rows_distinct[OF d2] obtain c' where
    2: "efor [0..<s] (scan_row ?lt s ''p'' None) (?z[0 := c]) = Inr (?z[0 := c'])" by auto
  from pass_ok[of ?z s ?ls "''p''" None] 1
  have "sum_list (?z[0 := c]) = sum_list ?z + of_nat (gap_events ?ls s ''p'' None)" by auto
  then have c: "c = of_nat (s * s)"
    using gap_events_distinct[of ?ls s] d1 by (simp add: upd sum_list_replicate)
  from pass_ok[of "?z[0 := c]" s ?lt "''p''" None] 2
  have "sum_list (?z[0 := c']) = sum_list (?z[0 := c]) + of_nat (gap_events ?lt s ''p'' None)" by auto
  then have c': "c' = of_nat (s * s) + of_nat (s * s)"
    using gap_events_distinct[of ?lt s] d2 c by (simp add: upd sum_list_replicate)
  have "c' / of_nat (s * 2) = of_nat s" using assms unfolding c' by (simp add: field_simps)
  then have "map (\<lambda>x. x / of_nat (s * 2)) (?z[0 := c']) = of_nat s # replicate (s - 1) 0"
    unfolding upd by simp
  moreover have "get_gapstat_2d ?ls s ''p'' True None = Inr (map (\<lambda>x. x / of_nat (s * 2)) (?z[0 := c']))"
    using 1 2 t by (simp add: get_gapstat_2d_def)
  ultimately show ?thesis by simp
qed

lemma analysis_uniform_exact:
  fixes binned :: "'a::{zero,times} ndarray"
  assumes sh: "shape binned = [s, s]" and dat: "data binned = replicate (s * s) v"
    and v: "v * v \<noteq> 0" and s: "0 < s" "even s"
  shows "analysis binned s ''exclude'' = Some (Inr (0, of_nat s # replicate (s - 1) 0, s * s))"
proof -
  let ?N = "s * s"
  have len: "length (data binned) = ?N" using dat by simp
  from analysis_labels_ok[OF sh len s(1), of "''exclude''"] obtain bonds labels lc where
    all: "get_bonds_nd binned 2 ''one'' = Inr bonds
           \<and> wf_input bonds [s, s] 2 ''pp''
           \<and> (\<forall>n<2. \<forall>cs. list_all2 (<) cs [s, s] \<longrightarrow>
                 bond_active bonds n cs
                   = (nd_val binned (pred_coords [s, s] cs n) * nd_val binned cs \<noteq> 0))
           \<and> hoshen_kopelman_nd bonds [s, s] 2 ''pp'' False = Some (Inr labels)
           \<and> length labels = s * s
           \<and> (\<forall>i<s * s. is_root labels (labels ! i))
           \<and> (\<forall>i<s * s. \<forall>j<s * s.
                 labels ! i = labels ! j \<longleftrightarrow> (i, j) \<in> bond_connected bonds [s, s] ''pp'')
           \<and> most_common1 labels = Inr (lc, count_list labels lc)
           \<and> lc \<in> set labels \<and> (\<forall>l. count_list labels l \<le> count_list labels lc)
           \<and> analysis_labels binned s ''exclude''
               = Some (Inr (labels,
                    (if ''exclude'' = ''exclude''
                     then map (\<lambda>i. if labels ! i = lc then int i else labels ! i) [0..<s * s]
                     else labels),
                    lc, count_list labels lc))"
    by blast
  have act: "\<And>n cs. n < 2 \<Longrightarrow> list_all2 (<) cs [s, s] \<Longrightarrow>
        bond_active bonds n cs = (nd_val binned (pred_coords [s, s] cs n) * nd_val binned cs \<noteq> 0)"
    using all by blast
  have ll: "length labels = ?N" using all by blast
  have same: "\<And>i j. i < ?N \<Longrightarrow> j < ?N \<Longrightarrow>
         labels ! i = labels ! j \<longleftrightarrow> (i, j) \<in> bond_connected bonds [s, s] ''pp''"
    using all by blast
  have lc: "lc \<in> set labels" using all by blast
  have res: "analysis_labels binned s ''exclude''
        = Some (Inr (labels, map (\<lambda>i. if labels ! i = lc then int i else labels ! i) [0..<?N],
             lc, count_list labels lc))"
    using all by simp
  have val: "nd_val binned cs = v" if "list_all2 (<) cs [s, s]" for cs
    using ravel_less[OF that] by (simp add: nd_val_def sh dat)
  have active: "bond_active bonds n cs" if n: "n < length [s, s]" and cs: "list_all2 (<) cs [s, s]" for n cs
  proof -
    have "[s, s] ! n = s" using n by (cases n) auto
    then have "(if cs ! n = 0 then [s, s] ! n - 1 else cs ! n - 1) < [s, s] ! n"
      using cs n s(1) by (auto simp: list_all2_conv_all_nth)
    from valid_update[OF cs n this] have "list_all2 (<) (pred_coords [s, s] cs n) [s, s]"
      by (simp add: pred_coords_def)
    then show ?thesis using act[of n cs] n cs val v by simp
  qed
  have conn: "(k, 0) \<in> bond_connected bonds [s, s] ''pp''" if "k < ?N" for k
    using full_lattice_connected[of "[s, s]" bonds k "''pp''"] active that by simp
  have all0: "labels ! i = labels ! 0" if "i < ?N" for i
    using same[OF that, of 0] conn[OF that] s(1) by simp
  from lc obtain j where "j < ?N" "labels ! j = lc" using ll by (auto simp: in_set_conv_nth)
  then have eq: "labels ! i = lc" if "i < ?N" for i using all0[OF that] all0[of j] by simp
  then have rep: "labels = replicate ?N lc" using ll by (intro nth_equalityI) auto
  have "count_list (replicate n lc) lc = n" for n by (induction n) simp_all
  then have cnt: "count_list labels lc = ?N" by (subst rep) simp
  have "map (\<lambda>i. if labels ! i = lc then int i else labels ! i) [0..<?N] = map int [0..<?N]"
    using eq by (intro map_cong) auto
  with res cnt have al: "analysis_labels binned s ''exclude''
      = Some (Inr (labels, map int [0..<?N], lc, ?N))" by simp
  let ?g = "of_nat s # replicate (s - 1) (0::rat)"
  have g: "get_gapstat_2d (map int [0..<?N]) s ''p'' True None = Inr ?g"
    using s(1) by (rule gapstat_all_distinct_exact)
  have lg: "length ?g = s" using s(1) by simp
  have gz: "?g ! k = 0" if "0 < k" "k < s" for k using that by (cases k) simp_all
  from s(2) obtain h where h: "s = 2 * h" by (auto elim: evenE)
  have "corner_contribution ?g s = Inr (corner_sum ?g s)" using corner_even[of ?g h] lg h by simp
  moreover have "corner_sum ?g s = 0" using corner_sum_zero[of ?g h] lg gz h by simp
  ultimately show ?thesis using al g by (simp add: analysis_def)
qed

section \<open>The claims\<close>

text \<open>
  Claim C3. For every label array and every starting index \<open>x\<close> from which iterating
  \<open>x \<rightarrow> labels[x]\<close> reaches a fixed point, \<open>find(x, labels)\<close> returns the first index
  \<open>r\<close> on that chain with \<open>labels[r] == r\<close>. Here \<open>follow k x labels\<close> is the chain after
  \<open>k\<close> steps, \<open>r\<close> is a fixed point and no earlier index of the chain is one. The array is
  left as it was: \<open>find\<close> has no assignment to \<open>labels\<close>, so the embedding takes the array
  as an argument and returns the index alone.
\<close>

theorem find_returns_first_root:
  assumes "follow k x labels = Inr r"
    and "py_index labels r = Inr r"
    and "\<forall>j<k. \<forall>y. follow j x labels = Inr y \<longrightarrow> py_index labels y \<noteq> Inr y"
  shows "find x labels = Some (Inr r)"
  using assms
proof (induction k arbitrary: x)
  case 0
  then show ?case by (subst find.simps) simp
next
  case (Suc k)
  from Suc.prems(1) obtain y where y: "py_index labels x = Inr y" "follow k y labels = Inr r"
    by (auto split: sum.splits)
  from Suc.prems(3)[rule_format, of 0 x] y have "y \<noteq> x" by auto
  have "\<forall>j<k. \<forall>z. follow j y labels = Inr z \<longrightarrow> py_index labels z \<noteq> Inr z"
  proof (intro allI impI)
    fix j z
    assume "j < k" "follow j y labels = Inr z"
    then have "Suc j < Suc k" "follow (Suc j) x labels = Inr z" using y by auto
    with Suc.prems(3) show "py_index labels z \<noteq> Inr z" by blast
  qed
  from Suc.IH[OF y(2) Suc.prems(2) this] have "find y labels = Some (Inr r)" .
  then show ?case using y \<open>y \<noteq> x\<close> by (subst find.simps) simp
qed

theorem find_returns_first_root_witness:
  "follow 3 3 [0, 0, 1, 2] = Inr 0 \<and> py_index [0, 0, 1, 2] 0 = Inr (0::int)
   \<and> find 3 [0, 0, 1, 2] = Some (Inr 0)"
proof -
  have 1: "follow 3 3 [0, 0, 1, 2] = Inr 0" by code_simp
  have 2: "py_index [0, 0, 1, 2] 0 = Inr (0::int)" by code_simp
  have 3: "\<forall>j<3. \<forall>y. follow j 3 [0, 0, 1, 2] = Inr y \<longrightarrow> py_index [0, 0, 1, 2] y \<noteq> Inr y"
  proof (intro allI impI)
    fix j :: nat and y :: int
    assume "j < 3" and f: "follow j 3 [0, 0, 1, 2] = Inr y"
    then consider "j = 0" | "j = 1" | "j = 2" by linarith
    then show "py_index [0, 0, 1, 2] y \<noteq> Inr y"
    proof cases
      case 1
      with f have "y = 3" by simp
      then show ?thesis by (simp add: py_index_def)
    next
      case 2
      with f have "y = 2" by (simp add: py_index_def)
      then show ?thesis by (simp add: py_index_def)
    next
      case 3
      with f have "follow (Suc (Suc 0)) 3 [0, 0, 1, 2] = Inr y" by (simp add: numeral_2_eq_2)
      then have "y = 1" by (simp add: py_index_def)
      then show ?thesis by (simp add: py_index_def)
    qed
  qed
  from find_returns_first_root[OF 1 2 3] 1 2 show ?thesis by simp
qed

text \<open>
  Claim C1. For every well-formed input (\<open>d\<close> bond arrays of the shape \<open>sizes\<close>, \<open>bc\<close> a
  string of \<open>d\<close> characters \<open>o\<close> or \<open>p\<close>) the label array that \<open>hoshen_kopelman_nd\<close>
  returns has one entry per site, and two sites carry the same label exactly when a path of
  active bonds connects them: the bond entry of a site links it to its predecessor along the
  axis when its coordinate there is not 0, and to the opposite end of the axis when that
  coordinate is 0 and the boundary condition of the axis is \<open>p\<close> (the relation
  \<open>bond_connected\<close>). This holds with and without \<open>reduce\<close>. An array is returned
  whenever every axis has at least one site; on a lattice without sites the periodic pass
  can raise, and then no array is returned.
\<close>

theorem hoshen_kopelman_nd_clusters:
  assumes "wf_input bonds sizes d bc"
  shows "(list_all (\<lambda>s. 0 < s) sizes \<longrightarrow>
            (\<exists>labels. hoshen_kopelman_nd bonds sizes d bc reduce = Some (Inr labels))) \<and>
         (\<forall>labels. hoshen_kopelman_nd bonds sizes d bc reduce = Some (Inr labels) \<longrightarrow>
            length labels = prod_list sizes \<and>
            (\<forall>i<prod_list sizes. \<forall>j<prod_list sizes.
               labels ! i = labels ! j \<longleftrightarrow> (i, j) \<in> bond_connected bonds sizes bc))"
proof (cases "list_all (\<lambda>s. 0 < s) sizes")
  case True
  from hk_run_ok[OF assms True] obtain st where
    st: "hk_run bonds sizes d bc = Some (Inr st)" "length (hk_labels st) = prod_list sizes"
      "\<And>i j. i < prod_list sizes \<Longrightarrow> j < prod_list sizes \<Longrightarrow>
         hk_labels st ! i = hk_labels st ! j \<longleftrightarrow> (i, j) \<in> bond_connected bonds sizes bc"
    by blast
  let ?ls = "if reduce then unique_inverse (hk_labels st) else hk_labels st"
  have res: "hoshen_kopelman_nd bonds sizes d bc reduce = Some (Inr ?ls)"
    using st(1) by (simp add: hoshen_kopelman_nd_def)
  have "length ?ls = prod_list sizes" using st(2) by simp
  moreover have "?ls ! i = ?ls ! j \<longleftrightarrow> (i, j) \<in> bond_connected bonds sizes bc"
    if "i < prod_list sizes" "j < prod_list sizes" for i j
    using st(3)[OF that] unique_inverse_eq[of i "hk_labels st" j] that st(2) by simp
  ultimately show ?thesis using res by simp
next
  case False
  then have N: "prod_list sizes = 0" by (rule prod_list_zero)
  have "length labels = 0" if "hoshen_kopelman_nd bonds sizes d bc reduce = Some (Inr labels)" for labels
  proof -
    from that obtain st where "hk_run bonds sizes d bc = Some (Inr st)"
      "labels = (if reduce then unique_inverse (hk_labels st) else hk_labels st)"
      by (auto simp: hk_result)
    then show ?thesis using hk_run_length[of bonds sizes d bc st] N by (simp add: unique_inverse_def)
  qed
  then show ?thesis using False N by simp
qed

theorem hoshen_kopelman_nd_clusters_witness:
  "wf_input [\<lparr>shape = [3], data = [Num 0, Num 1, Num (0::int)]\<rparr>] [3] 1 ''p''
   \<and> hoshen_kopelman_nd [\<lparr>shape = [3], data = [Num 0, Num 1, Num (0::int)]\<rparr>] [3] 1 ''p'' False
       = Some (Inr [0, 0, 2])
   \<and> (0, 1) \<in> bond_connected [\<lparr>shape = [3], data = [Num 0, Num 1, Num (0::int)]\<rparr>] [3] ''p''
   \<and> (1, 2) \<notin> bond_connected [\<lparr>shape = [3], data = [Num 0, Num 1, Num (0::int)]\<rparr>] [3] ''p''"
proof -
  let ?B = "[\<lparr>shape = [3], data = [Num 0, Num 1, Num (0::int)]\<rparr>]"
  have wf: "wf_input ?B [3] 1 ''p''" by (simp add: wf_input_def)
  have run: "hoshen_kopelman_nd ?B [3] 1 ''p'' False = Some (Inr [0, 0, 2])" by code_simp
  from hoshen_kopelman_nd_clusters[OF wf, of False] run
  have a: "\<forall>i<3. \<forall>j<3. [0, 0, 2::int] ! i = [0, 0, 2] ! j \<longleftrightarrow> (i, j) \<in> bond_connected ?B [3] ''p''"
    by simp
  from a[rule_format, of 0 1] have 1: "(0, 1) \<in> bond_connected ?B [3] ''p''" by simp
  from a[rule_format, of 1 2] have 2: "(1, 2) \<notin> bond_connected ?B [3] ''p''" by simp
  show ?thesis using wf run 1 2 by simp
qed

text \<open>
  Claim C5. For every \<open>N \<ge> 1\<close>, \<open>hoshen_kopelman_nd\<close> with \<open>d = 1\<close>, \<open>sizes = [N]\<close>,
  \<open>bc = 'p'\<close> and a bond array whose \<open>N\<close> entries are all active returns a label array of
  length \<open>N\<close> in which all sites carry one and the same label.
\<close>

theorem periodic_chain_single_cluster:
  assumes "0 < N" and "shape b = [N]" and "length (data b) = N" and "list_all truthy (data b)"
  shows "\<exists>labels. hoshen_kopelman_nd [b] [N] 1 ''p'' reduce = Some (Inr labels)
           \<and> length labels = N \<and> (\<forall>i<N. \<forall>j<N. labels ! i = labels ! j)"
proof -
  have wf: "wf_input [b] [N] 1 ''p''" using assms by (simp add: wf_input_def)
  have pos: "list_all (\<lambda>s. 0 < s) [N]" using assms(1) by simp
  from hk_run_ok[OF wf pos] obtain st where
    st: "hk_run [b] [N] 1 ''p'' = Some (Inr st)" "length (hk_labels st) = N"
      "\<And>i j. i < N \<Longrightarrow> j < N \<Longrightarrow>
         hk_labels st ! i = hk_labels st ! j \<longleftrightarrow> (i, j) \<in> bond_connected [b] [N] ''p''"
    by auto
  have conn: "(i, j) \<in> bond_connected [b] [N] ''p''" if "i < N" "j < N" for i j
    using chain_connected[OF assms(2,3,4), of i "''p''"] chain_connected[OF assms(2,3,4), of j "''p''"] that
    unfolding bond_connected_def by (meson eqcl_sym eqcl_trans)
  let ?ls = "if reduce then unique_inverse (hk_labels st) else hk_labels st"
  have "hoshen_kopelman_nd [b] [N] 1 ''p'' reduce = Some (Inr ?ls)"
    using st(1) by (simp add: hoshen_kopelman_nd_def)
  moreover have "length ?ls = N" using st(2) by simp
  moreover have "?ls ! i = ?ls ! j" if "i < N" "j < N" for i j
    using st(3)[OF that] conn[OF that] unique_inverse_eq[of i "hk_labels st" j] that st(2) by simp
  ultimately show ?thesis by blast
qed

theorem periodic_chain_single_cluster_witness:
  "hoshen_kopelman_nd [\<lparr>shape = [3], data = [Num 1, Num 1, Num (1::int)]\<rparr>] [3] 1 ''p'' False
     = Some (Inr [0, 0, 0])
   \<and> (\<exists>labels. hoshen_kopelman_nd [\<lparr>shape = [3], data = [Num 1, Num 1, Num (1::int)]\<rparr>] [3] 1 ''p'' False
          = Some (Inr labels) \<and> length labels = 3 \<and> labels ! 0 = labels ! 2)"
proof -
  let ?b = "\<lparr>shape = [3], data = [Num 1, Num 1, Num (1::int)]\<rparr>"
  have run: "hoshen_kopelman_nd [?b] [3] 1 ''p'' False = Some (Inr [0, 0, 0])" by code_simp
  from periodic_chain_single_cluster[of 3 ?b False]
  obtain labels where "hoshen_kopelman_nd [?b] [3] 1 ''p'' False = Some (Inr labels)"
    "length labels = 3" "\<forall>i<3. \<forall>j<3. labels ! i = labels ! j"
    by auto
  then show ?thesis using run by auto
qed

text \<open>
  Claim C7, as amended. On a line of four sites with \<open>bc = 'p'\<close> and interior bond entries
  1, 0, 1 at the sites 1, 2, 3, the wrap bond (the entry \<open>w\<close> at site 0) merges site 3 with
  site 0 exactly when it is active: then all four sites share one label; when it is inactive
  the labels are \<open>[0, 0, 2, 2]\<close>, the two clusters \<open>{0,1}\<close> and \<open>{2,3}\<close>, which are also the
  labels under \<open>bc = 'o'\<close>, where the periodic pass does nothing.
\<close>

theorem ring_of_four_wrap_bond:
  fixes w :: "'a::zero_neq_one npval"
  shows "hoshen_kopelman_nd [\<lparr>shape = [4], data = [w, Num 1, Num 0, Num 1]\<rparr>] [4] 1 ''p'' False
           = Some (Inr (if truthy w then [0, 0, 0, 0] else [0, 0, 2, 2]))
       \<and> hoshen_kopelman_nd [\<lparr>shape = [4], data = [w, Num 1, Num 0, Num 1]\<rparr>] [4] 1 ''o'' False
           = Some (Inr [0, 0, 2, 2])"
proof -
  let ?B = "[\<lparr>shape = [4], data = [w, Num 1, Num 0, Num 1]\<rparr>]"
  let ?e1 = "\<lparr>ev_kind = Primary, ev_before = [0, 1, 2, 3], ev_index = 1, ev_value = 0\<rparr>"
  let ?e2 = "\<lparr>ev_kind = Primary, ev_before = [0, 0, 2, 3], ev_index = 3, ev_value = 2\<rparr>"
  let ?e3 = "\<lparr>ev_kind = Wrap, ev_before = [0, 0, 2, 2], ev_index = 2, ev_value = 0\<rparr>"
  let ?s1 = "\<lparr>hk_labels = [0, 0, 2, 2], hk_trace = [?e1, ?e2]\<rparr>"
  let ?s2 = "\<lparr>hk_labels = [0, 0, 0, 2], hk_trace = [?e1, ?e2, ?e3]\<rparr>"
  have f0: "find 0 [0, 0, 2, 2] = Some (Inr 0)" by code_simp
  have f3: "find 3 [0, 0, 2, 2] = Some (Inr 2)" by code_simp
  have i0: "find 0 [0, 1, 2, 3] = Some (Inr 0)" by code_simp
  have i2: "find 2 [0, 0, 2, 3] = Some (Inr 2)" by code_simp
  have upt4: "[0..<4] = [0, 1, 2, 3]" by code_simp
  have cv: "convert_vec [4] 1 = [1]" by code_simp
  have st0: "map int [0..<prod_list [4]] = [0, 1, 2, 3]" by code_simp
  have sweep: "main_sweep ?B [4] [1] 1 \<lparr>hk_labels = [0, 1, 2, 3], hk_trace = []\<rparr> = Some (Inr ?s1)"
    by (simp add: main_sweep_def ranges_def visit_site_def upt4 py_index_def nd_index_def
        np_dot_def i0 i2 assign_def py_store_def)
  have bp: "for_loop [0..<1] (wrap_axis ?B [4] [1] ''p'') ?s1 = Some (Inr (if truthy w then ?s2 else ?s1))"
    by (simp add: wrap_axis_def wrap_site_def ranges_def py_index_def nd_index_def np_dot_def
        assign_def py_store_def f0 f3)
  have bo: "for_loop [0..<1] (wrap_axis ?B [4] [1] ''o'') ?s1 = Some (Inr ?s1)"
    by (simp add: wrap_axis_def py_index_def)
  have r1: "map_option (map_sum id hk_labels) (for_loop [0..<4] resolve_site ?s1) = Some (Inr [0, 0, 2, 2])"
    by code_simp
  have r2: "map_option (map_sum id hk_labels) (for_loop [0..<4] resolve_site ?s2) = Some (Inr [0, 0, 0, 0])"
    by code_simp
  have "length (hk_labels ?s1) = 4" "length (hk_labels ?s2) = 4" by simp_all
  then have l1: "[0..<length (hk_labels ?s1)] = [0..<4]"
    and l2: "[0..<length (hk_labels ?s2)] = [0..<4]" by (simp_all only:)
  have "map_option (map_sum id hk_labels) (hk_run ?B [4] 1 ''p'')
      = Some (Inr (if truthy w then [0, 0, 0, 0] else [0, 0, 2, 2]))"
  proof (cases "truthy w")
    case True
    have "hk_run ?B [4] 1 ''p'' = for_loop [0..<4] resolve_site ?s2"
      unfolding hk_run_def Let_def cv st0 sweep rbind_Inr bp if_P[OF True] l2 by (rule refl)
    then show ?thesis using r2 True by simp
  next
    case False
    have "hk_run ?B [4] 1 ''p'' = for_loop [0..<4] resolve_site ?s1"
      unfolding hk_run_def Let_def cv st0 sweep rbind_Inr bp if_not_P[OF False] l1 by (rule refl)
    then show ?thesis using r1 False by simp
  qed
  moreover have "map_option (map_sum id hk_labels) (hk_run ?B [4] 1 ''o'') = Some (Inr [0, 0, 2, 2])"
  proof -
    have "hk_run ?B [4] 1 ''o'' = for_loop [0..<4] resolve_site ?s1"
      unfolding hk_run_def Let_def cv st0 sweep rbind_Inr bo l1 by (rule refl)
    then show ?thesis using r1 by simp
  qed
  ultimately show ?thesis by (simp add: hk_labels_only)
qed

text \<open>
  As stated, C7 has the active wrap bond leave two clusters. The run gives a single one.
\<close>

theorem ring_of_four_wrap_bond_counterexample:
  "hoshen_kopelman_nd [\<lparr>shape = [4], data = [Num 1, Num 1, Num 0, Num (1::int)]\<rparr>] [4] 1 ''p'' False
     = Some (Inr [0, 0, 0, 0])"
  by code_simp

theorem ring_of_four_wrap_bond_witness:
  "hoshen_kopelman_nd [\<lparr>shape = [4], data = [Num 0, Num 1, Num 0, Num (1::int)]\<rparr>] [4] 1 ''p'' False
     = Some (Inr [0, 0, 2, 2])
   \<and> hoshen_kopelman_nd [\<lparr>shape = [4], data = [Num 0, Num 1, Num 0, Num (1::int)]\<rparr>] [4] 1 ''o'' False
     = Some (Inr [0, 0, 2, 2])"
  using ring_of_four_wrap_bond[of "Num (0::int)"] by simp


text \<open>
  Claim C2, as amended. During the main sweep the axis scan of a site stops after the first
  axis whose coordinate component is nonzero and whose bond is active: the visit is the
  primary union along that axis followed by its cross-term loop over the higher axes, and it
  does nothing when no axis has a nonzero component with an active bond. So a visit makes at
  most one primary union, and every other assignment of the visit is a cross-term one.
\<close>

theorem axis_scan_stops_at_first_active_bond:
  assumes "wf_input bonds sizes d bc" and "list_all2 (<) coords sizes"
  shows "visit_site bonds (convert_vec sizes d) d coords st =
           (case List.find (\<lambda>n. coords ! n \<noteq> 0 \<and> bond_active bonds n coords) [0..<d] of
              None \<Rightarrow> Some (Inr st)
            | Some n \<Rightarrow> primary_then_cross bonds (convert_vec sizes d) d coords n st)
       \<and> (\<forall>st'. visit_site bonds (convert_vec sizes d) d coords st = Some (Inr st') \<longrightarrow>
             (\<exists>evs. hk_trace st' = hk_trace st @ evs
                \<and> (evs = [] \<or> ev_kind (hd evs) = Primary \<and> list_all (\<lambda>e. ev_kind e = Cross) (tl evs))))"
proof -
  have eq: "visit_site bonds (convert_vec sizes d) d coords st =
           (case List.find (\<lambda>n. coords ! n \<noteq> 0 \<and> bond_active bonds n coords) [0..<d] of
              None \<Rightarrow> Some (Inr st)
            | Some n \<Rightarrow> primary_then_cross bonds (convert_vec sizes d) d coords n st)"
    unfolding visit_site_def by (rule axis_scan_first_active[OF assms]) simp
  have "\<exists>evs. hk_trace st' = hk_trace st @ evs
          \<and> (evs = [] \<or> ev_kind (hd evs) = Primary \<and> list_all (\<lambda>e. ev_kind e = Cross) (tl evs))"
    if r: "visit_site bonds (convert_vec sizes d) d coords st = Some (Inr st')" for st'
  proof (cases "List.find (\<lambda>n. coords ! n \<noteq> 0 \<and> bond_active bonds n coords) [0..<d]")
    case None
    with r eq have "st' = st" by simp
    then show ?thesis by simp
  next
    case (Some n)
    with r eq have "primary_then_cross bonds (convert_vec sizes d) d coords n st = Some (Inr st')" by simp
    from primary_then_cross_trace[OF this] obtain p evs where
      "hk_trace st' = hk_trace st @ p # evs" "ev_kind p = Primary" "list_all (\<lambda>e. ev_kind e = Cross) evs"
      by blast
    then show ?thesis by (intro exI[of _ "p # evs"]) simp
  qed
  with eq show ?thesis by blast
qed

theorem axis_scan_stops_at_first_active_bond_witness:
  "wf_input [\<lparr>shape = [2, 2], data = [Num 0, Num 0, Num 0, Num (0::int)]\<rparr>,
             \<lparr>shape = [2, 2], data = [Num 1, Num 1, Num 1, Num 1]\<rparr>] [2, 2] 2 ''oo''
   \<and> list_all2 (<) [1, 1] [2, 2::nat]
   \<and> visit_site [\<lparr>shape = [2, 2], data = [Num 0, Num 0, Num 0, Num (0::int)]\<rparr>,
             \<lparr>shape = [2, 2], data = [Num 1, Num 1, Num 1, Num 1]\<rparr>] (convert_vec [2, 2] 2) 2 [1, 1]
         \<lparr>hk_labels = [0, 0, 2, 3], hk_trace = []\<rparr>
       = primary_then_cross [\<lparr>shape = [2, 2], data = [Num 0, Num 0, Num 0, Num (0::int)]\<rparr>,
             \<lparr>shape = [2, 2], data = [Num 1, Num 1, Num 1, Num 1]\<rparr>] (convert_vec [2, 2] 2) 2 [1, 1] 1
         \<lparr>hk_labels = [0, 0, 2, 3], hk_trace = []\<rparr>"
proof -
  let ?B = "[\<lparr>shape = [2, 2], data = [Num 0, Num 0, Num 0, Num (0::int)]\<rparr>,
             \<lparr>shape = [2, 2], data = [Num 1, Num 1, Num 1, Num 1]\<rparr>]"
  have wf: "wf_input ?B [2, 2] 2 ''oo''" by (simp add: wf_input_def)
  have cs: "list_all2 (<) [1, 1] [2, 2::nat]" by simp
  have "List.find (\<lambda>n. [1, 1::nat] ! n \<noteq> 0 \<and> bond_active ?B n [1, 1]) [0..<2] = Some 1"
    by code_simp
  with axis_scan_stops_at_first_active_bond[OF wf cs] wf cs show ?thesis by simp
qed

text \<open>
  As stated, C2 has the scan stop after the first axis with a nonzero component, whatever
  its bond (\<open>axis_scan_spec\<close>). At the site (1,1) of a 2 by 2 lattice whose axis-0 bonds are
  inactive and whose axis-1 bonds are active, the code goes on to axis 1 and joins the site
  to its predecessor there; the scan of the claim leaves it alone.
\<close>

theorem axis_scan_break_counterexample:
  "map_option (map_sum id hk_labels)
     (axis_scan [\<lparr>shape = [2, 2], data = [Num 0, Num 0, Num 0, Num (0::int)]\<rparr>,
                 \<lparr>shape = [2, 2], data = [Num 1, Num 1, Num 1, Num 1]\<rparr>] [2, 1] 2 [1, 1] [0, 1]
        \<lparr>hk_labels = [0, 0, 2, 3], hk_trace = []\<rparr>) = Some (Inr [0, 0, 2, 2])
   \<and> map_option (map_sum id hk_labels)
     (axis_scan_spec [\<lparr>shape = [2, 2], data = [Num 0, Num 0, Num 0, Num (0::int)]\<rparr>,
                 \<lparr>shape = [2, 2], data = [Num 1, Num 1, Num 1, Num 1]\<rparr>] [2, 1] 2 [1, 1] [0, 1]
        \<lparr>hk_labels = [0, 0, 2, 3], hk_trace = []\<rparr>) = Some (Inr [0, 0, 2, 3])
   \<and> hoshen_kopelman_nd [\<lparr>shape = [2, 2], data = [Num 0, Num 0, Num 0, Num (0::int)]\<rparr>,
                 \<lparr>shape = [2, 2], data = [Num 1, Num 1, Num 1, Num 1]\<rparr>] [2, 2] 2 ''oo'' False
       = Some (Inr [0, 0, 2, 2])"
  by code_simp

text \<open>
  Claim C10, as amended. Throughout one call of \<open>hoshen_kopelman_nd\<close> the labels array is
  a forest: every entry is an in-range index and the parent chains have no cycle but the
  self-loops of roots. The ghost trace holds the array before each assignment; \<open>event_ok\<close>
  says that this array is a forest, that a union assignment (primary, cross-term or wrap)
  writes at the entry of a root (the just-visited site is one) the index of a root, in a
  primary union a different root, and that the last pass writes at an index its own root.
  In a cross-term or wrap union the root written is the same root when the two sites are
  already in one tree; the assignment then leaves the array as it was. Hence every \<open>find\<close>
  on such an array returns and stays in range (\<open>finds_return\<close>), the call never runs
  forever, and on a lattice with at least one site on every axis it returns.
\<close>

theorem hk_labels_stay_forest:
  assumes "wf_input bonds sizes d bc"
  shows "hk_run bonds sizes d bc \<noteq> None
     \<and> (list_all (\<lambda>s. 0 < s) sizes \<longrightarrow> (\<exists>st. hk_run bonds sizes d bc = Some (Inr st)))
     \<and> (\<forall>st. hk_run bonds sizes d bc = Some (Inr st) \<longrightarrow>
           forest (hk_labels st) \<and> finds_return (hk_labels st)
           \<and> list_all (\<lambda>e. event_ok e \<and> finds_return (ev_before e)) (hk_trace st))"
proof (cases "list_all (\<lambda>s. 0 < s) sizes")
  case True
  from hk_run_ok[OF assms True] obtain st where
    st: "hk_run bonds sizes d bc = Some (Inr st)" "list_all event_ok (hk_trace st)" "forest (hk_labels st)"
    by blast
  then show ?thesis using forest_finds_return event_ok_finds by auto
next
  case False
  then have "prod_list sizes = 0" by (rule prod_list_zero)
  from hk_run_empty[OF this, of bonds d bc]
  consider "hk_run bonds sizes d bc = Some (Inr \<lparr>hk_labels = [], hk_trace = []\<rparr>)"
    | e where "hk_run bonds sizes d bc = Some (Inl e)" by blast
  then show ?thesis
  proof cases
    case 1
    have "parent_rel [] = {}" by (auto simp: parent_rel_def)
    then have "forest []" by (simp add: forest_def acyclic_def)
    then show ?thesis using 1 False forest_finds_return by auto
  next
    case 2
    then show ?thesis using False by simp
  qed
qed

theorem hk_labels_stay_forest_witness:
  "wf_input [\<lparr>shape = [2, 2], data = [Num 1, Num 1, Num 1, Num (1::int)]\<rparr>,
             \<lparr>shape = [2, 2], data = [Num 1, Num 1, Num 1, Num 1]\<rparr>] [2, 2] 2 ''pp''
   \<and> (\<exists>st. hk_run [\<lparr>shape = [2, 2], data = [Num 1, Num 1, Num 1, Num (1::int)]\<rparr>,
             \<lparr>shape = [2, 2], data = [Num 1, Num 1, Num 1, Num 1]\<rparr>] [2, 2] 2 ''pp'' = Some (Inr st)
         \<and> forest (hk_labels st) \<and> list_all event_ok (hk_trace st))"
proof -
  let ?B = "[\<lparr>shape = [2, 2], data = [Num 1, Num 1, Num 1, Num (1::int)]\<rparr>,
             \<lparr>shape = [2, 2], data = [Num 1, Num 1, Num 1, Num 1]\<rparr>]"
  have wf: "wf_input ?B [2, 2] 2 ''pp''" by (simp add: wf_input_def)
  from hk_labels_stay_forest[OF wf] wf show ?thesis by (auto simp: list_all_iff)
qed

text \<open>
  As stated, C10 has every union assignment redirect an entry to a different root
  (\<open>union_to_different_root\<close>). On the 2 by 2 lattice with every bond active and periodic
  boundaries the three primary unions do, each entry of \<open>union_writes\<close> giving the kind, the
  array before, the index, the value and whether the value is a root other than the index.
  The cross-term union at the site (1,1) and the four wrap unions find both sites already
  under the root 0 and write 0 at index 0.
\<close>

theorem union_same_root_counterexample:
  "map_option (map_sum id union_writes)
     (hk_run [\<lparr>shape = [2, 2], data = [Num 1, Num 1, Num 1, Num (1::int)]\<rparr>,
              \<lparr>shape = [2, 2], data = [Num 1, Num 1, Num 1, Num 1]\<rparr>] [2, 2] 2 ''pp'')
   = Some (Inr [(Primary, [0, 1, 2, 3], 1, 0, True),
                (Primary, [0, 0, 2, 3], 2, 0, True),
                (Primary, [0, 0, 0, 3], 3, 0, True),
                (Cross, [0, 0, 0, 0], 0, 0, False),
                (Wrap, [0, 0, 0, 0], 0, 0, False),
                (Wrap, [0, 0, 0, 0], 0, 0, False),
                (Wrap, [0, 0, 0, 0], 0, 0, False),
                (Wrap, [0, 0, 0, 0], 0, 0, False)])"
  by code_simp

text \<open>
  Claim C4. For every state array, every \<open>d\<close> up to its number of axes and every axis
  \<open>n < d\<close>, \<open>get_bonds_nd\<close> returns \<open>d\<close> arrays, and \<open>bonds[n]\<close> holds at each coordinate
  the value \<open>state[coords] * state[coords - e_n]\<close> when \<open>bond_type\<close> is \<open>one\<close> and the bool
  \<open>state[coords - e_n] == state[coords]\<close> when it is \<open>all\<close>; the predecessor \<open>coords - e_n\<close>
  wraps around at the boundary of axis \<open>n\<close> (\<open>pred_coords\<close>). The element type is any type
  with a commutative multiplication.
\<close>

theorem get_bonds_nd_entries:
  fixes state :: "'a::ab_semigroup_mult ndarray"
  assumes "length (data state) = prod_list (shape state)"
    and "d \<le> length (shape state)"
    and "n < d"
    and "list_all2 (<) coords (shape state)"
  shows "\<exists>one all.
           get_bonds_nd state d ''one'' = Inr one \<and> get_bonds_nd state d ''all'' = Inr all
           \<and> length one = d \<and> length all = d
           \<and> nd_index (one ! n) coords
               = Inr (Num (nd_val state coords * nd_val state (pred_coords (shape state) coords n)))
           \<and> nd_index (all ! n) coords
               = Inr (Bool (nd_val state (pred_coords (shape state) coords n) = nd_val state coords))"
proof -
  let ?sh = "shape state" and ?P = "product_lists (ranges (shape state))"
  let ?N = "prod_list (shape state)"
  let ?roll = "\<lambda>m. \<lparr>shape = ?sh,
      data = map (\<lambda>cs. data state ! ravel ?sh (cs[m := (cs ! m + ?sh ! m - 1) mod (?sh ! m)])) ?P\<rparr>"
  have rolls: "collect (map (np_roll1 state) [0..<d]) = Inr (map ?roll [0..<d])"
    using assms(2) by (intro collect_map_Inr) (simp add: np_roll1_def)
  let ?one = "map (\<lambda>roll. \<lparr>shape = ?sh, data = map2 (\<lambda>r s. Num (r * s)) (data roll) (data state)\<rparr>)
      (map ?roll [0..<d])"
  let ?all = "map (\<lambda>roll. \<lparr>shape = ?sh, data = map2 (\<lambda>r s. Bool (r = s)) (data roll) (data state)\<rparr>)
      (map ?roll [0..<d])"
  have one: "get_bonds_nd state d ''one'' = Inr ?one" by (simp add: get_bonds_nd_def rolls)
  have all: "get_bonds_nd state d ''all'' = Inr ?all" by (simp add: get_bonds_nd_def rolls)
  let ?k = "ravel ?sh coords"
  have k: "?k < ?N" using ravel_less[OF assms(4)] .
  have nsh: "n < length ?sh" using assms(2,3) by simp
  have cn: "coords ! n < ?sh ! n" using assms(4) nsh by (simp add: list_all2_conv_all_nth)
  have pred: "(?P ! ?k)[n := (?P ! ?k ! n + ?sh ! n - 1) mod (?sh ! n)] = pred_coords ?sh coords n"
    unfolding ranges_nth_ravel[OF assms(4)] pred_coords_def using roll_mod[OF cn] by simp
  have rk: "data (?roll n) ! ?k = nd_val state (pred_coords ?sh coords n)"
    using k pred by (simp add: length_ranges_product nd_val_def)
  have lr: "length (data (?roll n)) = ?N" by (simp add: length_ranges_product)
  have "nd_index (?one ! n) coords = Inr (Num (data (?roll n) ! ?k * data state ! ?k))"
    using assms(1,3,4) k lr by (simp add: nd_index_def)
  then have 1: "nd_index (?one ! n) coords
      = Inr (Num (nd_val state coords * nd_val state (pred_coords ?sh coords n)))"
    unfolding rk by (simp add: nd_val_def mult.commute)
  have "nd_index (?all ! n) coords = Inr (Bool (data (?roll n) ! ?k = data state ! ?k))"
    using assms(1,3,4) k lr by (simp add: nd_index_def)
  then have 2: "nd_index (?all ! n) coords
      = Inr (Bool (nd_val state (pred_coords ?sh coords n) = nd_val state coords))"
    unfolding rk by (simp add: nd_val_def)
  show ?thesis using one all 1 2 by (intro exI[of _ ?one] exI[of _ ?all]) simp
qed

theorem get_bonds_nd_entries_witness:
  "\<exists>one all.
     get_bonds_nd \<lparr>shape = [2, 2], data = [1, 0, 1, 1::int]\<rparr> 2 ''one'' = Inr one
     \<and> get_bonds_nd \<lparr>shape = [2, 2], data = [1, 0, 1, 1::int]\<rparr> 2 ''all'' = Inr all
     \<and> nd_index (one ! 1) [1, 0] = Inr (Num 1) \<and> nd_index (all ! 1) [0, 0] = Inr (Bool False)"
proof -
  let ?s = "\<lparr>shape = [2, 2], data = [1, 0, 1, 1::int]\<rparr>"
  have a: "length (data ?s) = prod_list (shape ?s)" "(2::nat) \<le> length (shape ?s)" "(1::nat) < 2"
    by simp_all
  have c1: "list_all2 (<) [1, 0] (shape ?s)" and c2: "list_all2 (<) [0, 0] (shape ?s)" by simp_all
  have v: "nd_val ?s [1, 0] * nd_val ?s (pred_coords (shape ?s) [1, 0] 1) = 1"
    "(nd_val ?s (pred_coords (shape ?s) [0, 0] 1) = nd_val ?s [0, 0]) = False"
    by (simp_all add: nd_val_def pred_coords_def)
  from get_bonds_nd_entries[OF a c1] get_bonds_nd_entries[OF a c2] show ?thesis
    unfolding v by fastforce
qed

text \<open>
  Claim C6, as amended. For every label array the histogram that one scan direction of
  \<open>get_gapstat_2d\<close> accumulates, before normalization, sums to the number of repeat
  occurrences in the scanned lines (in each line the non-bad entries minus the distinct
  non-bad labels: a label with \<open>k\<close> occurrences counts \<open>k - 1\<close> times) plus the periodic wrap
  events (one per distinct non-bad label of each line when \<open>bc\<close> is \<open>p\<close>); this is
  \<open>gap_events\<close>. The returned array is this histogram divided by \<open>size\<close>, and with
  \<open>both_directions\<close> the histogram of both passes divided by \<open>2*size\<close>.
\<close>

theorem gap_histogram_sum:
  "\<exists>f. efor [0..<size'] (scan_row labels size' bc bad) (replicate size' 0) = Inr f
      \<and> length f = size'
      \<and> sum_list f = of_nat (gap_events labels size' bc bad)
      \<and> get_gapstat_2d labels size' bc False bad = Inr (map (\<lambda>x. x / of_nat size') f)
      \<and> (length labels = size' * size' \<longrightarrow>
           (\<exists>labels' f2. transpose_flat labels size' = Inr labels'
              \<and> efor [0..<size'] (scan_row labels' size' bc bad) f = Inr f2
              \<and> sum_list f2 = of_nat (gap_events labels size' bc bad + gap_events labels' size' bc bad)
              \<and> get_gapstat_2d labels size' bc True bad
                  = Inr (map (\<lambda>x. x / of_nat (2 * size')) f2)))"
proof -
  from pass_ok[of "replicate size' 0" size' labels bc bad] obtain f where
    f: "efor [0..<size'] (scan_row labels size' bc bad) (replicate size' 0) = Inr f"
      "length f = size'" "sum_list f = of_nat (gap_events labels size' bc bad)"
    by (auto simp: sum_list_replicate)
  have one: "get_gapstat_2d labels size' bc False bad = Inr (map (\<lambda>x. x / of_nat size') f)"
    using f(1) by (simp add: get_gapstat_2d_def)
  have two: "\<exists>labels' f2. transpose_flat labels size' = Inr labels'
              \<and> efor [0..<size'] (scan_row labels' size' bc bad) f = Inr f2
              \<and> sum_list f2 = of_nat (gap_events labels size' bc bad + gap_events labels' size' bc bad)
              \<and> get_gapstat_2d labels size' bc True bad
                  = Inr (map (\<lambda>x. x / of_nat (2 * size')) f2)"
    if sq: "length labels = size' * size'"
  proof -
    obtain labels' where t: "transpose_flat labels size' = Inr labels'"
      using sq by (simp add: transpose_flat_def)
    from pass_ok[OF f(2), of labels' bc bad] obtain f2 where
      f2: "efor [0..<size'] (scan_row labels' size' bc bad) f = Inr f2"
        "sum_list f2 = sum_list f + of_nat (gap_events labels' size' bc bad)"
      by auto
    have "get_gapstat_2d labels size' bc True bad = Inr (map (\<lambda>x. x / of_nat (2 * size')) f2)"
      using f(1) t f2(1) by (simp add: get_gapstat_2d_def mult.commute)
    then show ?thesis using t f2 f(3) by simp
  qed
  show ?thesis using f one two by blast
qed

theorem gap_histogram_sum_witness:
  "\<exists>f. efor [0..<2] (scan_row [5, 5, 5, 6] 2 ''p'' None) (replicate 2 0) = Inr f
      \<and> sum_list f = 4
      \<and> get_gapstat_2d [5, 5, 5, 6] 2 ''p'' False None = Inr (map (\<lambda>x. x / 2) f)"
proof -
  have "gap_events [5, 5, 5, 6] 2 ''p'' None = 4" by code_simp
  with gap_histogram_sum[of 2 "[5, 5, 5, 6]" "''p''" None] show ?thesis by auto
qed

text \<open>
  As stated, C6 counts each label with at least two occurrences in a line once
  (\<open>claimed_gap_events\<close>). A line of three equal labels has two gap events, not one.
\<close>

theorem gap_histogram_sum_counterexample:
  "efor [0..<3] (scan_row [7, 7, 7, 7, 7, 7, 7, 7, 7] 3 ''o'' None) (replicate 3 0) = Inr [0, 6, 0]
   \<and> claimed_gap_events [7, 7, 7, 7, 7, 7, 7, 7, 7] 3 ''o'' None = 3
   \<and> efor [0..<3] (scan_row [7, 7, 7, 7, 7, 7, 7, 7, 7] 3 ''p'' None) (replicate 3 0) = Inr [0, 9, 0]
   \<and> claimed_gap_events [7, 7, 7, 7, 7, 7, 7, 7, 7] 3 ''p'' None = 6"
  by code_simp

text \<open>
  Claim C9. In \<open>analysis\<close> with \<open>LC = 'exclude'\<close>, on a \<open>size\<close> by \<open>size\<close> grid with
  \<open>size > 0\<close>: \<open>lc\<close> is a label of maximal count, every site bearing it gets its own flat
  index, every other site keeps its label, which is a root index outside the largest
  cluster, and no replacement value is the label of a site outside the largest cluster. So
  after the substitution two distinct sites share a label exactly when they are connected
  by active bonds (they belong to one cluster) and that cluster is not the largest.
\<close>

theorem excluded_labels_stay_apart:
  fixes binned :: "'a::{zero,times} ndarray"
  assumes "shape binned = [size', size']" and "length (data binned) = size' * size'"
    and "0 < size'"
  shows "\<exists>bonds labels labels' lc n.
           get_bonds_nd binned 2 ''one'' = Inr bonds
           \<and> analysis_labels binned size' ''exclude'' = Some (Inr (labels, labels', lc, n))
           \<and> length labels = size' * size' \<and> length labels' = size' * size'
           \<and> lc \<in> set labels \<and> n = count_list labels lc \<and> (\<forall>l. count_list labels l \<le> n)
           \<and> (\<forall>i<size' * size'. labels ! i = lc \<longrightarrow> labels' ! i = int i)
           \<and> (\<forall>j<size' * size'. labels ! j \<noteq> lc \<longrightarrow>
                 labels' ! j = labels ! j \<and> is_root labels (labels ! j))
           \<and> (\<forall>i<size' * size'. \<forall>j<size' * size'.
                 labels ! i = lc \<and> labels ! j \<noteq> lc \<longrightarrow> int i \<noteq> labels ! j)
           \<and> (\<forall>i<size' * size'. \<forall>j<size' * size'. i \<noteq> j \<longrightarrow>
                 (labels' ! i = labels' ! j
                    \<longleftrightarrow> (i, j) \<in> bond_connected bonds [size', size'] ''pp'' \<and> labels ! i \<noteq> lc))"
proof -
  let ?N = "size' * size'"
  from analysis_labels_ok[OF assms, of "''exclude''"] obtain bonds labels lc where
    b: "get_bonds_nd binned 2 ''one'' = Inr bonds"
    and len: "length labels = ?N"
    and root: "\<And>i. i < ?N \<Longrightarrow> is_root labels (labels ! i)"
    and same: "\<And>i j. i < ?N \<Longrightarrow> j < ?N \<Longrightarrow>
         labels ! i = labels ! j \<longleftrightarrow> (i, j) \<in> bond_connected bonds [size', size'] ''pp''"
    and lc: "lc \<in> set labels" "\<And>l. count_list labels l \<le> count_list labels lc"
    and res: "analysis_labels binned size' ''exclude''
        = Some (Inr (labels, map (\<lambda>i. if labels ! i = lc then int i else labels ! i) [0..<?N],
             lc, count_list labels lc))"
    by auto
  let ?ls' = "map (\<lambda>i. if labels ! i = lc then int i else labels ! i) [0..<?N]"
  have nth: "?ls' ! i = (if labels ! i = lc then int i else labels ! i)" if "i < ?N" for i
    using that by simp
  have apart: "int i \<noteq> labels ! j" if "i < ?N" "j < ?N" "labels ! i = lc" "labels ! j \<noteq> lc" for i j
  proof
    assume eq: "int i = labels ! j"
    from root[OF that(2)] have "labels ! nat (labels ! j) = labels ! j" by (simp add: is_root_def)
    with eq have "labels ! i = labels ! j" by (metis nat_int)
    with that(3,4) show False by simp
  qed
  have iff: "?ls' ! i = ?ls' ! j
      \<longleftrightarrow> (i, j) \<in> bond_connected bonds [size', size'] ''pp'' \<and> labels ! i \<noteq> lc"
    if "i < ?N" "j < ?N" "i \<noteq> j" for i j
  proof (cases "labels ! i = lc")
    case True
    show ?thesis
    proof (cases "labels ! j = lc")
      case True
      with \<open>labels ! i = lc\<close> that show ?thesis by (simp add: nth)
    next
      case False
      with True apart[OF that(1,2)] that show ?thesis by (simp add: nth)
    qed
  next
    case False
    show ?thesis
    proof (cases "labels ! j = lc")
      case True
      with False apart[OF that(2,1)] same[OF that(1,2)] that show ?thesis by (auto simp: nth)
    next
      case nj: False
      with \<open>labels ! i \<noteq> lc\<close> same[OF that(1,2)] that show ?thesis by (simp add: nth)
    qed
  qed
  show ?thesis
    using b res len lc root apart iff nth
    by (intro exI[of _ bonds] exI[of _ labels] exI[of _ ?ls'] exI[of _ lc]
        exI[of _ "count_list labels lc"]) (simp del: map_eq_conv)
qed

theorem excluded_labels_stay_apart_witness:
  "\<exists>labels labels' lc n.
     analysis_labels \<lparr>shape = [2, 2], data = [1, 1, 0, 1::int]\<rparr> 2 ''exclude''
       = Some (Inr (labels, labels', lc, n))
     \<and> length labels' = 4 \<and> lc \<in> set labels \<and> n = count_list labels lc"
proof -
  let ?g = "\<lparr>shape = [2, 2], data = [1, 1, 0, 1::int]\<rparr>"
  have "shape ?g = [2, 2]" "length (data ?g) = 2 * 2" "(0::nat) < 2" by simp_all
  from excluded_labels_stay_apart[OF this] show ?thesis by auto
qed

text \<open>
  Claim C8, as amended. Whenever \<open>analysis\<close> returns \<open>(corner, g, LC_size)\<close>, \<open>g\<close> is the
  two-direction periodic gap statistic (\<open>get_gapstat_2d\<close>) of the label grid that the
  labeler returns for the bonds of the binned grid, with the sites of the most common label
  replaced by their flat indices when \<open>LC\<close> is \<open>exclude\<close>; \<open>LC_size\<close> is the count of that
  label; \<open>g\<close> has \<open>size\<close> entries; and \<open>corner\<close> is the sum over
  \<open>ell = 0 .. size div 2 - 1\<close> of \<open>ell * (g ell + g (size - 1 - ell))\<close>, divided by
  \<open>2 * size\<close>. On a \<open>size\<close> by \<open>size\<close> grid \<open>analysis\<close> returns when \<open>size\<close> is even and
  positive; when \<open>size\<close> is odd and at least 3 the two halves of \<open>g\<close> that the sum folds
  have different lengths and \<open>analysis\<close> raises \<open>ValueError\<close>. For a fully uniform grid of
  even positive side (every cell holds the same \<open>v\<close> with \<open>v * v \<noteq> 0\<close>), with the largest
  cluster excluded, the single cluster has all \<open>size * size\<close> sites, the gap statistic is
  \<open>size\<close> at gap 0 (the periodic wrap events of the relabelled sites) and 0 at every other
  gap, and the corner contribution is 0. Floating-point numbers are modelled as exact
  rationals.
\<close>

theorem corner_contribution_weighted_sum:
  fixes binned :: "'a::{zero,times} ndarray"
  shows "(\<forall>corner g n. analysis binned size' LC = Some (Inr (corner, g, n)) \<longrightarrow>
            (\<exists>bonds labels lc labels'.
                get_bonds_nd binned 2 ''one'' = Inr bonds
              \<and> hoshen_kopelman_nd bonds [size', size'] 2 ''pp'' False = Some (Inr labels)
              \<and> most_common1 labels = Inr (lc, n)
              \<and> (if LC = ''exclude'' then exclude_largest labels lc size' else Inr labels)
                   = Inr labels'
              \<and> get_gapstat_2d labels' size' ''p'' True None = Inr g)
            \<and> length g = size'
            \<and> corner = (\<Sum>ell<size' div 2. of_nat ell * (g ! ell + g ! (size' - 1 - ell)))
                       / (2 * of_nat size'))
       \<and> (shape binned = [size', size'] \<and> length (data binned) = size' * size' \<longrightarrow>
            (0 < size' \<and> even size' \<longrightarrow>
               (\<exists>corner g n. analysis binned size' LC = Some (Inr (corner, g, n))))
            \<and> (odd size' \<and> 3 \<le> size' \<longrightarrow> analysis binned size' LC = Some (Inl ValueError)))
       \<and> (shape binned = [size', size'] \<and> data binned = replicate (size' * size') v
            \<and> v * v \<noteq> 0 \<and> 0 < size' \<and> even size' \<longrightarrow>
            analysis binned size' ''exclude''
              = Some (Inr (0, of_nat size' # replicate (size' - 1) 0, size' * size')))"
proof -
  have a: "(\<exists>bonds labels lc labels'.
                get_bonds_nd binned 2 ''one'' = Inr bonds
              \<and> hoshen_kopelman_nd bonds [size', size'] 2 ''pp'' False = Some (Inr labels)
              \<and> most_common1 labels = Inr (lc, n)
              \<and> (if LC = ''exclude'' then exclude_largest labels lc size' else Inr labels)
                   = Inr labels'
              \<and> get_gapstat_2d labels' size' ''p'' True None = Inr g)
            \<and> length g = size'
            \<and> corner = (\<Sum>ell<size' div 2. of_nat ell * (g ! ell + g ! (size' - 1 - ell)))
                       / (2 * of_nat size')"
    if r: "analysis binned size' LC = Some (Inr (corner, g, n))" for corner g n
  proof -
    from analysis_returns[OF r] have 1: "\<exists>bonds labels lc labels'.
                get_bonds_nd binned 2 ''one'' = Inr bonds
              \<and> hoshen_kopelman_nd bonds [size', size'] 2 ''pp'' False = Some (Inr labels)
              \<and> most_common1 labels = Inr (lc, n)
              \<and> (if LC = ''exclude'' then exclude_largest labels lc size' else Inr labels)
                   = Inr labels'
              \<and> get_gapstat_2d labels' size' ''p'' True None = Inr g"
      by blast
    from analysis_corner[OF r] have 2: "length g = size'" "corner = corner_sum g size'" by simp_all
    show ?thesis using 1 2 unfolding corner_sum_def by (intro conjI)
  qed
  have b: "\<exists>corner g n. analysis binned size' LC = Some (Inr (corner, g, n))"
    if "shape binned = [size', size']" "length (data binned) = size' * size'" "0 < size'" "even size'"
    using that by (rule analysis_total)
  have c: "analysis binned size' LC = Some (Inl ValueError)"
    if "shape binned = [size', size']" "length (data binned) = size' * size'" "odd size'" "3 \<le> size'"
    using that by (rule analysis_odd)
  have d: "analysis binned size' ''exclude''
              = Some (Inr (0, of_nat size' # replicate (size' - 1) 0, size' * size'))"
    if "shape binned = [size', size']" "data binned = replicate (size' * size') v"
       "v * v \<noteq> 0" "0 < size'" "even size'"
    using that by (rule analysis_uniform_exact)
  show ?thesis using a b c d by blast
qed

theorem corner_contribution_weighted_sum_witness:
  "analysis \<lparr>shape = [4, 4], data = [1, 1, 0, 0,  0, 0, 0, 0,  0, 0, 1, 1,  0, 0, 1, 0::int]\<rparr> 4 ''exclude''
     = Some (Inr (1 / 64, [15 / 4, 1 / 8, 0, 1 / 8], 3))
   \<and> (1 / 64 :: rat) = (\<Sum>ell<4 div 2. of_nat ell * ([15 / 4, 1 / 8, 0, 1 / 8] ! ell
                          + [15 / 4, 1 / 8, 0, 1 / 8] ! (4 - 1 - ell))) / (2 * of_nat 4)
   \<and> get_gapstat_2d [0, 0, 2, 3, 4, 5, 6, 7, 8, 9, 10, 11, 12, 13, 14, 15] 4 ''p'' True None
       = Inr [15 / 4, 1 / 8, 0, 1 / 8]
   \<and> analysis \<lparr>shape = [4, 4], data = replicate (4 * 4) (1::int)\<rparr> 4 ''exclude''
       = Some (Inr (0, [4, 0, 0, 0], 16))"
proof -
  let ?G = "\<lparr>shape = [4, 4], data = [1, 1, 0, 0,  0, 0, 0, 0,  0, 0, 1, 1,  0, 0, 1, 0::int]\<rparr>"
  let ?U = "\<lparr>shape = [4, 4], data = replicate (4 * 4) (1::int)\<rparr>"
  have run: "analysis ?G 4 ''exclude'' = Some (Inr (1 / 64, [15 / 4, 1 / 8, 0, 1 / 8], 3))"
    by code_simp
  have gs: "get_gapstat_2d [0, 0, 2, 3, 4, 5, 6, 7, 8, 9, 10, 11, 12, 13, 14, 15] 4 ''p'' True None
       = Inr [15 / 4, 1 / 8, 0, 1 / 8]"
    by code_simp
  from corner_contribution_weighted_sum[of ?G 4 "''exclude''" 1] run
  have sum: "(1 / 64 :: rat) = (\<Sum>ell<4 div 2. of_nat ell * ([15 / 4, 1 / 8, 0, 1 / 8] ! ell
                          + [15 / 4, 1 / 8, 0, 1 / 8] ! (4 - 1 - ell))) / (2 * of_nat 4)"
    by blast
  have "shape ?U = [4, 4] \<and> data ?U = replicate (4 * 4) 1 \<and> (1::int) * 1 \<noteq> 0
      \<and> (0::nat) < 4 \<and> even (4::nat)"
    by simp
  with corner_contribution_weighted_sum[of ?U 4 "''exclude''" 1]
  have "analysis ?U 4 ''exclude'' = Some (Inr (0, of_nat 4 # replicate (4 - 1) 0, 4 * 4))"
    by blast
  then have uni: "analysis ?U 4 ''exclude'' = Some (Inr (0, [4, 0, 0, 0], 16))"
    by (simp add: numeral_eq_Suc)
  show ?thesis using run sum gs uni by (intro conjI)
qed

text \<open>
  As stated, C8 gives the corner contribution 0 for every fully uniform grid. On the
  uniform 3 by 3 grid the labeler finds the single cluster of 9 sites and the gap statistic
  of the relabelled grid is \<open>[3, 0, 0]\<close>, but \<open>gap_stat[:1]\<close> has one entry and
  \<open>gap_stat[1:]\<close> two: their sum has two entries, \<open>np.arange(1)\<close> has one, and \<open>np.dot\<close>
  raises \<open>ValueError\<close>. No corner contribution is returned.
\<close>

theorem corner_odd_size_counterexample:
  "analysis_labels \<lparr>shape = [3, 3], data = [1, 1, 1, 1, 1, 1, 1, 1, 1::int]\<rparr> 3 ''exclude''
     = Some (Inr ([0, 0, 0, 0, 0, 0, 0, 0, 0], [0, 1, 2, 3, 4, 5, 6, 7, 8], 0, 9))
   \<and> get_gapstat_2d [0, 1, 2, 3, 4, 5, 6, 7, 8] 3 ''p'' True None = Inr [3, 0, 0]
   \<and> corner_contribution [3, 0, 0] 3 = Inl ValueError
   \<and> analysis \<lparr>shape = [3, 3], data = [1, 1, 1, 1, 1, 1, 1, 1, 1::int]\<rparr> 3 ''exclude''
       = Some (Inl ValueError)"
  by code_simp

end
